theory Spec2Isabelle
  imports Main "HOL-Library.Multiset" "HOL-Library.Code_Target_Nat"
begin

section \<open>Data model of \<^verbatim>\<open>paragraph_threads.c\<close>\<close>

text \<open>
  The source file holds two listings of the program.  Both have the same worker
  function \<^verbatim>\<open>print_thread\<close>, the same semaphore ring and the same \<^verbatim>\<open>main\<close>; they
  differ in how \<^verbatim>\<open>print_paragraph\<close> hands words to the workers:
  \<^item> the first listing (lines 175--227) gives worker \<open>i\<close> the words at the indices
    \<open>i, i + NUM_THREADS, i + 2 * NUM_THREADS, \<dots>\<close>;
  \<^item> the second listing (lines 434--484) gives worker \<open>i\<close> a block of consecutive words,
    of \<open>total_words div NUM_THREADS\<close> words plus one for the first
    \<open>total_words mod NUM_THREADS\<close> workers.

  The macro \<^verbatim>\<open>NUM_THREADS\<close> is the parameter \<open>n\<close> of the definitions below, and the
  global array \<^verbatim>\<open>all_words\<close> (with \<^verbatim>\<open>total_words\<close> its length) is the parameter
  \<open>all_words\<close>; \<^verbatim>\<open>main\<close> is the instance for the program's own constants.  A C \<^verbatim>\<open>int\<close> is
  a natural number together with the check that it stays at most \<open>INT_MAX\<close>: where a
  counter can pass \<open>INT_MAX\<close> the model says that the behaviour is undefined.
\<close>

definition NUM_THREADS :: nat where
  "NUM_THREADS = 5"

text \<open>The global \<^verbatim>\<open>paragraph\<close> (the name is an Isabelle keyword).\<close>

definition the_paragraph :: string where
  "the_paragraph =
     ''Computer science is the study of computation, automation, and information. '' @
     ''Computer science spans theoretical disciplines to practical disciplines. '' @
     ''Computer science is generally considered an area of academic research and '' @
     ''distinct from computer programming.''"

text \<open>The constants of the C library that the program relies on (their values in glibc).\<close>

definition INT_MAX :: nat where
  "INT_MAX = 2147483647"

definition SEM_VALUE_MAX :: nat where
  "SEM_VALUE_MAX = 2147483647"

definition EXIT_FAILURE :: nat where
  "EXIT_FAILURE = 1"

text \<open>
  \<^verbatim>\<open>thread_data_t\<close>.  The two semaphore pointers are indices into the global array
  \<^verbatim>\<open>semaphores\<close>; \<^verbatim>\<open>is_chaos_mode\<close> is the C truth value of the \<^verbatim>\<open>int\<close> flag.
\<close>

record thread_data_t =
  thread_id :: nat
  words :: "string list"
  word_count :: nat
  sem_wait :: nat
  sem_signal :: nat
  is_chaos_mode :: bool

section \<open>The process: library calls that can fail, and how the program ends\<close>

text \<open>
  What the main thread can observe and change: the global array \<^verbatim>\<open>semaphores\<close>
  (\<open>None\<close> is a semaphore that is not initialised), what the workers have printed, the
  diagnostics that \<^verbatim>\<open>perror\<close> wrote, and how many calls of \<^verbatim>\<open>malloc\<close>, \<^verbatim>\<open>strdup\<close>,
  \<^verbatim>\<open>sem_init\<close> and \<^verbatim>\<open>pthread_create\<close> the program has made.  The two banner lines of
  \<^verbatim>\<open>main\<close> are not recorded.
\<close>

record process =
  sems :: "nat option list"
  out :: "(nat \<times> string) list"
  stderr :: "string list"
  calls :: nat

text \<open>
  How a piece of the program ends when it does not simply return: the process exits
  with a status; the behaviour is undefined in C (signed overflow, division by zero, a
  read of memory that was never written, a call on a semaphore that is not initialised);
  or the main thread is still blocked in \<^verbatim>\<open>pthread_join\<close> at the end of the schedule
  considered.
\<close>

datatype outcome = Exit nat | Undefined | Blocked

type_synonym 'a result = "(outcome \<times> process) + 'a"

text \<open>
  The environment \<open>env\<close> decides every checked library call: the \<open>k\<close>-th such call of
  the process succeeds when \<open>env k\<close> holds, and otherwise returns what the program tests
  for (\<^verbatim>\<open>NULL\<close> from \<^verbatim>\<open>malloc\<close> and \<^verbatim>\<open>strdup\<close>, non-zero from \<^verbatim>\<open>sem_init\<close> and
  \<^verbatim>\<open>pthread_create\<close>).  The C library may return \<^verbatim>\<open>NULL\<close> from \<^verbatim>\<open>malloc(0)\<close> at will, which
  is a call that \<open>env\<close> lets fail.  The pattern
  \<^verbatim>\<open>if (call failed) { perror(msg); exit(EXIT_FAILURE); }\<close> is:
\<close>

definition or_exit :: "(nat \<Rightarrow> bool) \<Rightarrow> string \<Rightarrow> process \<Rightarrow> process result" where
  "or_exit env msg p =
     (if env (calls p) then Inr (p\<lparr>calls := calls p + 1\<rparr>)
      else Inl (Exit EXIT_FAILURE, p\<lparr>stderr := stderr p @ [msg], calls := calls p + 1\<rparr>))"

section \<open>\<^verbatim>\<open>split_paragraph_into_words\<close>\<close>

text \<open>
  The tokens that the calls \<^verbatim>\<open>strtok(paragraph_copy, " ")\<close>, \<^verbatim>\<open>strtok(NULL, " ")\<close>, \<open>\<dots>\<close>
  return: the maximal runs of characters other than the space, in order.  The first
  argument is the run collected so far.
\<close>

fun strtok_all :: "string \<Rightarrow> string \<Rightarrow> string list" where
  "strtok_all acc [] = (if acc = [] then [] else [acc])"
| "strtok_all acc (c # cs) =
     (if c = CHR '' '' then (if acc = [] then strtok_all [] cs else acc # strtok_all [] cs)
      else strtok_all (acc @ [c]) cs)"

text \<open>
  \<^verbatim>\<open>while (token != NULL && word_idx < total_words)\<close>: each token is copied with
  \<^verbatim>\<open>strdup\<close>, whose failure ends the process.  \<open>word_idx\<close> is the number of words stored.
\<close>

fun store_tokens ::
    "(nat \<Rightarrow> bool) \<Rightarrow> nat \<Rightarrow> string list \<Rightarrow> string list \<Rightarrow> process \<Rightarrow> (string list \<times> process) result" where
  "store_tokens env total_words [] all_words p = Inr (all_words, p)"
| "store_tokens env total_words (token # tokens) all_words p =
     (if length all_words < total_words then
        (case or_exit env ''strdup failed'' p of
           Inl x \<Rightarrow> Inl x
         | Inr p' \<Rightarrow> store_tokens env total_words tokens (all_words @ [token]) p')
      else Inr (all_words, p))"

text \<open>
  Lines 43--92.  The counter \<open>i\<close> of the first loop runs up to the length of the
  paragraph and \<open>spaces + 1\<close> is computed in \<^verbatim>\<open>int\<close>.  The function returns the words
  stored and \<open>total_words\<close>; when fewer than \<open>total_words\<close> tokens exist, the rest of the
  array \<^verbatim>\<open>all_words\<close> is never written.
\<close>

definition split_paragraph_into_words ::
    "(nat \<Rightarrow> bool) \<Rightarrow> string \<Rightarrow> process \<Rightarrow> ((string list \<times> nat) \<times> process) result" where
  "split_paragraph_into_words env para p =
     (if INT_MAX < length para then Inl (Undefined, p)
      else
        let spaces = length (filter (\<lambda>c. c = CHR '' '') para);
            total_words = spaces + 1
        in if INT_MAX < total_words then Inl (Undefined, p)
           else
             (case or_exit env ''malloc failed'' p of
                Inl x \<Rightarrow> Inl x
              | Inr p1 \<Rightarrow>
                  (case or_exit env ''strdup failed'' p1 of
                     Inl x \<Rightarrow> Inl x
                   | Inr p2 \<Rightarrow>
                       (case store_tokens env total_words (strtok_all [] para) [] p2 of
                          Inl x \<Rightarrow> Inl x
                        | Inr (all_words, p3) \<Rightarrow> Inr ((all_words, total_words), p3)))))"

section \<open>The semaphore ring\<close>

text \<open>
  The ring with the only positive count, 1, at index \<open>j\<close>.  \<open>ring n 0\<close> is what
  \<^verbatim>\<open>sem_init(&semaphores[i], 0, (i == 0) ? 1 : 0)\<close> for every \<open>i\<close> leaves.
\<close>

definition ring :: "nat \<Rightarrow> nat \<Rightarrow> nat option list" where
  "ring n j = (replicate n (Some 0))[j := Some 1]"

text \<open>\<^verbatim>\<open>init_semaphores\<close>, lines 142--150: the loop from \<open>i\<close> on.\<close>

function init_loop :: "nat \<Rightarrow> (nat \<Rightarrow> bool) \<Rightarrow> nat \<Rightarrow> process \<Rightarrow> process result" where
  "init_loop n env i p =
     (if i < n then
        (case or_exit env ''sem_init failed'' p of
           Inl x \<Rightarrow> Inl x
         | Inr p' \<Rightarrow>
             init_loop n env (i + 1)
               (p'\<lparr>sems := (sems p')[i := Some (if i = 0 then 1 else 0)]\<rparr>))
      else Inr p)"
  by pat_completeness auto
termination
  by (relation "measure (\<lambda>(n, env, i, p). n - i)") auto

declare init_loop.simps [simp del]

definition init_semaphores :: "nat \<Rightarrow> (nat \<Rightarrow> bool) \<Rightarrow> process \<Rightarrow> process result" where
  "init_semaphores n env p = init_loop n env 0 p"

text \<open>
  \<^verbatim>\<open>destroy_semaphores\<close>, lines 155--159: \<^verbatim>\<open>sem_destroy\<close> leaves each semaphore not
  initialised; its result is not tested.
\<close>

definition destroy_semaphores :: "nat \<Rightarrow> process \<Rightarrow> process" where
  "destroy_semaphores n p = p\<lparr>sems := fold (\<lambda>i ss. ss[i := None]) [0..<n] (sems p)\<rparr>"

text \<open>\<^verbatim>\<open>reset_semaphores\<close>, lines 164--169.\<close>

definition reset_semaphores :: "nat \<Rightarrow> (nat \<Rightarrow> bool) \<Rightarrow> process \<Rightarrow> process result" where
  "reset_semaphores n env p = init_semaphores n env (destroy_semaphores n p)"

section \<open>The worker \<^verbatim>\<open>print_thread\<close> and its interleavings\<close>

text \<open>
  A worker is at one of five places of \<^verbatim>\<open>print_thread\<close>: the loop test
  \<^verbatim>\<open>i < data->word_count\<close>, the call of \<^verbatim>\<open>sem_wait\<close>, the call of \<^verbatim>\<open>printf\<close>, the call of
  \<^verbatim>\<open>sem_post\<close>, or it has returned.  Its local state is this place and the loop counter
  \<open>i\<close>.  The calls of \<^verbatim>\<open>usleep\<close> only pass time and are no step of the model: every
  delay they can cause is an interleaving of the steps below.
\<close>

datatype pc = LoopTest | SemWait | Printf | SemPost | Returned

datatype sem_op = Wait nat | Post nat

text \<open>
  The state of one run of the workers: their local states, the global array
  \<^verbatim>\<open>semaphores\<close>, what the workers have printed, as the pair of the worker's
  \<^verbatim>\<open>thread_id\<close> and the word of each \<^verbatim>\<open>printf\<close> (the program prints the id plus one as the
  label, and the second listing adds a line break after a word with a full stop), and
  the history of the semaphore calls that have returned, as the caller's \<^verbatim>\<open>thread_id\<close>
  and the call.
\<close>

record run_state =
  threads :: "(pc \<times> nat) list"
  semaphores :: "nat option list"
  stdout :: "(nat \<times> string) list"
  sem_calls :: "(nat \<times> sem_op) list"

text \<open>
  One step of worker \<open>t\<close> with data \<open>td\<close>, at place \<open>pc\<close> with counter \<open>i\<close>.
  \<^verbatim>\<open>sem_wait\<close> returns only when the count is positive, and decrements it; until then
  the worker cannot step (\<open>None\<close>).  \<^verbatim>\<open>sem_post\<close> increments the count, unless it is
  \<open>SEM_VALUE_MAX\<close> already; the program does not test its result.  The increment
  \<^verbatim>\<open>i++\<close> belongs to the last step of the loop body.  A call on a semaphore that is not
  initialised has no defined behaviour: the model gives the worker no step there, and
  \<open>join_threads\<close> below reports it before it lets synchronized workers run.
\<close>

fun print_thread :: "thread_data_t \<Rightarrow> nat \<Rightarrow> pc \<Rightarrow> nat \<Rightarrow> run_state \<Rightarrow> run_state option" where
  "print_thread td t LoopTest i s =
     Some (s\<lparr>threads := (threads s)
       [t := (if i < word_count td then (if is_chaos_mode td then Printf else SemWait)
              else Returned, i)]\<rparr>)"
| "print_thread td t SemWait i s =
     (case semaphores s ! sem_wait td of
        Some (Suc c) \<Rightarrow>
          Some (s\<lparr>threads := (threads s)[t := (Printf, i)],
                  semaphores := (semaphores s)[sem_wait td := Some c],
                  sem_calls := sem_calls s @ [(thread_id td, Wait (sem_wait td))]\<rparr>)
      | _ \<Rightarrow> None)"
| "print_thread td t Printf i s =
     Some (s\<lparr>threads := (threads s)
                [t := (if is_chaos_mode td then (LoopTest, i + 1) else (SemPost, i))],
             stdout := stdout s @ [(thread_id td, words td ! i)]\<rparr>)"
| "print_thread td t SemPost i s =
     (case semaphores s ! sem_signal td of
        Some c \<Rightarrow>
          Some (s\<lparr>threads := (threads s)[t := (LoopTest, i + 1)],
                  semaphores := (semaphores s)
                    [sem_signal td := Some (if c < SEM_VALUE_MAX then Suc c else c)],
                  sem_calls := sem_calls s @ [(thread_id td, Post (sem_signal td))]\<rparr>)
      | None \<Rightarrow> None)"
| "print_thread td t Returned i s = None"

text \<open>The scheduler lets worker \<open>t\<close> make a step, if it exists and can.\<close>

definition step :: "thread_data_t list \<Rightarrow> nat \<Rightarrow> run_state \<Rightarrow> run_state option" where
  "step tds t s =
     (if t < length tds \<and> t < length (threads s)
      then print_thread (tds ! t) t (fst (threads s ! t)) (snd (threads s ! t)) s
      else None)"

text \<open>
  A run is a schedule: the list of the workers that step, in order.  \<open>None\<close> is a
  schedule that asks a worker for a step it cannot make.
\<close>

fun run :: "thread_data_t list \<Rightarrow> nat list \<Rightarrow> run_state \<Rightarrow> run_state option" where
  "run tds [] s = Some s"
| "run tds (t # ts) s = (case step tds t s of None \<Rightarrow> None | Some s' \<Rightarrow> run tds ts s')"

text \<open>
  \<^verbatim>\<open>pthread_create\<close> starts every worker at the head of its loop with \<open>i = 0\<close>.  The
  loop that creates the workers writes nothing that a worker reads after its own
  creation (\<^verbatim>\<open>thread_data[i]\<close> is complete before worker \<open>i\<close> is created), so a worker that
  is created later is a worker that the schedule lets step later, and a run starts
  with all workers at the head of their loops.
\<close>

definition start :: "nat \<Rightarrow> nat option list \<Rightarrow> run_state" where
  "start n ss =
     \<lparr>threads = replicate n (LoopTest, 0), semaphores = ss, stdout = [], sem_calls = []\<rparr>"

definition all_returned :: "run_state \<Rightarrow> bool" where
  "all_returned s = list_all (\<lambda>th. fst th = Returned) (threads s)"

text \<open>
  Lines 221--226: \<^verbatim>\<open>pthread_join\<close> of every worker (and \<^verbatim>\<open>free\<close> of its array).  The
  joins have all returned when the schedule has brought every worker to its return;
  then the workers' output and the semaphores' counts are those of the process.
\<close>

definition join_threads ::
    "nat \<Rightarrow> bool \<Rightarrow> thread_data_t list \<Rightarrow> nat list \<Rightarrow> process \<Rightarrow> process result" where
  "join_threads n mode tds sched p =
     (if \<not> mode \<and> 0 < n \<and> None \<in> set (sems p) then Inl (Undefined, p)
      else
        (case run tds sched (start n (sems p)) of
           None \<Rightarrow> Inl (Blocked, p)
         | Some s \<Rightarrow>
             if all_returned s
             then Inr (p\<lparr>sems := semaphores s, out := out p @ stdout s\<rparr>)
             else Inl (Blocked, p)))"

section \<open>The two listings of \<^verbatim>\<open>print_paragraph\<close>\<close>

subsection \<open>First listing: every \<open>n\<close>-th word\<close>

text \<open>
  \<^verbatim>\<open>for (int j = i; j < total_words; j += NUM_THREADS) count++;\<close>
  The loop does not end when \<open>n = 0\<close> and \<open>j < total_words\<close>, so it is a partial function:
  \<open>None\<close> is the run that never returns.  \<open>j += NUM_THREADS\<close> is a signed addition.
\<close>

partial_function (option) count_loop :: "nat \<Rightarrow> nat \<Rightarrow> nat \<Rightarrow> nat \<Rightarrow> (outcome + nat) option" where
  "count_loop n total_words j cnt =
     (if j < total_words then
        (if INT_MAX < j + n then Some (Inl Undefined)
         else count_loop n total_words (j + n) (cnt + 1))
      else Some (Inr cnt))"

declare count_loop.simps [code]

text \<open>
  \<^verbatim>\<open>for (int j = i; j < total_words; j += NUM_THREADS) words[word_pos++] = all_words[j];\<close>
  \<open>word_pos\<close> starts at 0 and grows by one per store, so the stores fill the array from
  the left: the array after the loop is the list of the stored words.
\<close>

partial_function (option) assign_loop ::
    "nat \<Rightarrow> string list \<Rightarrow> nat \<Rightarrow> string list \<Rightarrow> (outcome + string list) option" where
  "assign_loop n all_words j ws =
     (if j < length all_words then
        (if INT_MAX < j + n then Some (Inl Undefined)
         else assign_loop n all_words (j + n) (ws @ [all_words ! j]))
      else Some (Inr ws))"

declare assign_loop.simps [code]

text \<open>
  Lines 184--218, the loop from worker \<open>i\<close> on: the count, the allocation of the
  worker's array (of \<open>count\<close> pointers, so \<^verbatim>\<open>malloc(0)\<close> for an empty share), the words,
  the two semaphores, and the creation of the thread.  \<open>tds\<close> is \<^verbatim>\<open>thread_data[0..i-1]\<close>.
  When a failed call ends the process here, the workers created so far end with it;
  each of them sleeps at least 10 ms before its first \<^verbatim>\<open>printf\<close>, and the model records
  no output of theirs.
\<close>

function threads_loop_v1 ::
    "nat \<Rightarrow> (nat \<Rightarrow> bool) \<Rightarrow> string list \<Rightarrow> bool \<Rightarrow> nat \<Rightarrow> thread_data_t list \<Rightarrow> process \<Rightarrow>
     (thread_data_t list \<times> process) result option" where
  "threads_loop_v1 n env all_words mode i tds p =
     (if i < n then
        (case count_loop n (length all_words) i 0 of
           None \<Rightarrow> None
         | Some (Inl e) \<Rightarrow> Some (Inl (e, p))
         | Some (Inr cnt) \<Rightarrow>
             (case or_exit env ''malloc failed'' p of
                Inl x \<Rightarrow> Some (Inl x)
              | Inr p1 \<Rightarrow>
                  (case assign_loop n all_words i [] of
                     None \<Rightarrow> None
                   | Some (Inl e) \<Rightarrow> Some (Inl (e, p1))
                   | Some (Inr ws) \<Rightarrow>
                       (case or_exit env ''pthread_create failed'' p1 of
                          Inl x \<Rightarrow> Some (Inl x)
                        | Inr p2 \<Rightarrow>
                            threads_loop_v1 n env all_words mode (i + 1)
                              (tds @ [\<lparr>thread_id = i, words = ws, word_count = cnt,
                                       sem_wait = i, sem_signal = (i + 1) mod n,
                                       is_chaos_mode = mode\<rparr>]) p2))))
      else Some (Inr (tds, p)))"
  by pat_completeness auto
termination
  by (relation "measure (\<lambda>(n, env, all_words, mode, i, tds, p). n - i)") auto

declare threads_loop_v1.simps [simp del]

definition create_threads_v1 ::
    "nat \<Rightarrow> (nat \<Rightarrow> bool) \<Rightarrow> string list \<Rightarrow> bool \<Rightarrow> process \<Rightarrow>
     (thread_data_t list \<times> process) result option" where
  "create_threads_v1 n env all_words mode p = threads_loop_v1 n env all_words mode 0 [] p"

definition print_paragraph_v1 ::
    "nat \<Rightarrow> (nat \<Rightarrow> bool) \<Rightarrow> string list \<Rightarrow> bool \<Rightarrow> nat list \<Rightarrow> process \<Rightarrow> process result option" where
  "print_paragraph_v1 n env all_words mode sched p =
     (case create_threads_v1 n env all_words mode p of
        None \<Rightarrow> None
      | Some (Inl x) \<Rightarrow> Some (Inl x)
      | Some (Inr (tds, p')) \<Rightarrow> Some (join_threads n mode tds sched p'))"

subsection \<open>Second listing: consecutive blocks\<close>

text \<open>
  Lines 447--475, the loop from worker \<open>i\<close> on.  The inner loop
  \<^verbatim>\<open>for (int j = 0; j < word_count; j++) words[j] = all_words[word_index++];\<close>
  stores \<^verbatim>\<open>all_words[word_index + j]\<close> at \<open>j\<close> and leaves \<open>word_index\<close> advanced by
  \<open>word_count\<close>.
\<close>

function threads_loop_v2 ::
    "nat \<Rightarrow> (nat \<Rightarrow> bool) \<Rightarrow> string list \<Rightarrow> bool \<Rightarrow> nat \<Rightarrow> nat \<Rightarrow> thread_data_t list \<Rightarrow> process \<Rightarrow>
     (thread_data_t list \<times> process) result" where
  "threads_loop_v2 n env all_words mode i word_index tds p =
     (if i < n then
        (let words_per_thread = length all_words div n;
             extra_words = length all_words mod n;
             wc = words_per_thread + (if i < extra_words then 1 else 0)
         in case or_exit env ''malloc failed'' p of
              Inl x \<Rightarrow> Inl x
            | Inr p1 \<Rightarrow>
                (let ws = map (\<lambda>j. all_words ! (word_index + j)) [0..<wc]
                 in case or_exit env ''pthread_create failed'' p1 of
                      Inl x \<Rightarrow> Inl x
                    | Inr p2 \<Rightarrow>
                        threads_loop_v2 n env all_words mode (i + 1) (word_index + wc)
                          (tds @ [\<lparr>thread_id = i, words = ws, word_count = wc,
                                   sem_wait = i, sem_signal = (i + 1) mod n,
                                   is_chaos_mode = mode\<rparr>]) p2))
      else Inr (tds, p))"
  by pat_completeness auto
termination
  by (relation "measure (\<lambda>(n, env, all_words, mode, i, word_index, tds, p). n - i)") auto

declare threads_loop_v2.simps [simp del]

text \<open>
  Lines 439--445 divide by \<^verbatim>\<open>NUM_THREADS\<close> before the loop: with \<open>n = 0\<close> the behaviour is
  undefined.
\<close>

definition create_threads_v2 ::
    "nat \<Rightarrow> (nat \<Rightarrow> bool) \<Rightarrow> string list \<Rightarrow> bool \<Rightarrow> process \<Rightarrow>
     (thread_data_t list \<times> process) result" where
  "create_threads_v2 n env all_words mode p =
     (if n = 0 then Inl (Undefined, p) else threads_loop_v2 n env all_words mode 0 0 [] p)"

definition print_paragraph_v2 ::
    "nat \<Rightarrow> (nat \<Rightarrow> bool) \<Rightarrow> string list \<Rightarrow> bool \<Rightarrow> nat list \<Rightarrow> process \<Rightarrow> process result" where
  "print_paragraph_v2 n env all_words mode sched p =
     (case create_threads_v2 n env all_words mode p of
        Inl x \<Rightarrow> Inl x
      | Inr (tds, p') \<Rightarrow> join_threads n mode tds sched p')"

subsection \<open>Either listing\<close>

datatype listing = Listing1 | Listing2

definition create_threads ::
    "listing \<Rightarrow> nat \<Rightarrow> (nat \<Rightarrow> bool) \<Rightarrow> string list \<Rightarrow> bool \<Rightarrow> process \<Rightarrow>
     (thread_data_t list \<times> process) result option" where
  "create_threads l n env all_words mode p =
     (case l of
        Listing1 \<Rightarrow> create_threads_v1 n env all_words mode p
      | Listing2 \<Rightarrow> Some (create_threads_v2 n env all_words mode p))"

definition print_paragraph ::
    "listing \<Rightarrow> nat \<Rightarrow> (nat \<Rightarrow> bool) \<Rightarrow> string list \<Rightarrow> bool \<Rightarrow> nat list \<Rightarrow> process \<Rightarrow>
     process result option" where
  "print_paragraph l n env all_words mode sched p =
     (case l of
        Listing1 \<Rightarrow> print_paragraph_v1 n env all_words mode sched p
      | Listing2 \<Rightarrow> Some (print_paragraph_v2 n env all_words mode sched p))"

section \<open>\<^verbatim>\<open>main\<close>\<close>

text \<open>
  Lines 229--258, for any number of workers and any paragraph.  \<open>sched0\<close> and \<open>sched1\<close>
  are the schedules of the workers of the two runs.  The array \<^verbatim>\<open>semaphores\<close> is a
  global of \<open>n\<close> semaphores, none initialised at the start.  \<^verbatim>\<open>print_paragraph\<close> reads
  \<^verbatim>\<open>all_words[0..total_words-1]\<close>, which is undefined when the tokens did not fill the
  array.  \<open>None\<close> is a \<^verbatim>\<open>main\<close> that never returns.
\<close>

definition main_prog ::
    "listing \<Rightarrow> nat \<Rightarrow> string \<Rightarrow> (nat \<Rightarrow> bool) \<Rightarrow> nat list \<Rightarrow> nat list \<Rightarrow> (outcome \<times> process) option" where
  "main_prog l n para env sched0 sched1 =
     (case split_paragraph_into_words env para
             \<lparr>sems = replicate n None, out = [], stderr = [], calls = 0\<rparr> of
        Inl x \<Rightarrow> Some x
      | Inr ((all_words, total_words), p1) \<Rightarrow>
          (case init_semaphores n env p1 of
             Inl x \<Rightarrow> Some x
           | Inr p2 \<Rightarrow>
               if length all_words < total_words then Some (Undefined, p2)
               else
                 (case print_paragraph l n env all_words False sched0 p2 of
                    None \<Rightarrow> None
                  | Some (Inl x) \<Rightarrow> Some x
                  | Some (Inr p3) \<Rightarrow>
                      (case reset_semaphores n env p3 of
                         Inl x \<Rightarrow> Some x
                       | Inr p4 \<Rightarrow>
                           (case print_paragraph l n env all_words True sched1 p4 of
                              None \<Rightarrow> None
                            | Some (Inl x) \<Rightarrow> Some x
                            | Some (Inr p5) \<Rightarrow> Some (Exit 0, destroy_semaphores n p5))))))"

text \<open>The program: five workers and its own paragraph.\<close>

definition main :: "listing \<Rightarrow> (nat \<Rightarrow> bool) \<Rightarrow> nat list \<Rightarrow> nat list \<Rightarrow> (outcome \<times> process) option" where
  "main l env sched0 sched1 = main_prog l NUM_THREADS the_paragraph env sched0 sched1"

section \<open>Auxiliary notions for the proofs\<close>

definition quota :: "nat \<Rightarrow> nat \<Rightarrow> nat \<Rightarrow> nat" where
  "quota n k t = (k + n - 1 - t) div n"

definition wired :: "nat \<Rightarrow> bool \<Rightarrow> thread_data_t list \<Rightarrow> bool" where
  "wired n mode tds \<longleftrightarrow>
     length tds = n \<and>
     (\<forall>t<n. thread_id (tds ! t) = t \<and> sem_wait (tds ! t) = t \<and>
            sem_signal (tds ! t) = (t + 1) mod n \<and> is_chaos_mode (tds ! t) = mode \<and>
            length (words (tds ! t)) = word_count (tds ! t))"

definition holds_token :: "pc \<times> nat \<Rightarrow> bool" where
  "holds_token th \<longleftrightarrow> fst th = Printf \<or> fst th = SemPost"

definition local_ok :: "thread_data_t \<Rightarrow> pc \<times> nat \<Rightarrow> bool" where
  "local_ok td th \<longleftrightarrow>
     snd th \<le> word_count td \<and>
     (fst th \<in> {SemWait, Printf, SemPost} \<longrightarrow> snd th < word_count td) \<and>
     (fst th = Returned \<longrightarrow> snd th = word_count td) \<and>
     (is_chaos_mode td \<longrightarrow> fst th \<noteq> SemWait \<and> fst th \<noteq> SemPost)"

definition ring_inv :: "nat \<Rightarrow> thread_data_t list \<Rightarrow> run_state \<Rightarrow> bool" where
  "ring_inv n tds s \<longleftrightarrow>
     length (threads s) = n \<and>
     (\<forall>t<n. local_ok (tds ! t) (threads s ! t)) \<and>
     (\<forall>t<n. snd (threads s ! t) =
        quota n (length (stdout s)) t - (if fst (threads s ! t) = SemPost then 1 else 0)) \<and>
     (\<forall>t<n. fst (threads s ! t) = Printf \<longrightarrow> t = length (stdout s) mod n) \<and>
     (\<forall>t<n. fst (threads s ! t) = SemPost \<longrightarrow>
        0 < length (stdout s) \<and> t = (length (stdout s) - 1) mod n) \<and>
     (\<forall>t<n. \<forall>u<n. holds_token (threads s ! t) \<longrightarrow> holds_token (threads s ! u) \<longrightarrow> t = u) \<and>
     semaphores s =
       (if \<exists>t<n. holds_token (threads s ! t) then replicate n (Some 0)
        else ring n (length (stdout s) mod n)) \<and>
     stdout s = map (\<lambda>k. (k mod n, words (tds ! (k mod n)) ! (k div n))) [0..<length (stdout s)]"

text \<open>Progress of the synchronized run: while a worker has not returned, some worker can step.\<close>

definition shares_fair :: "nat \<Rightarrow> nat \<Rightarrow> thread_data_t list \<Rightarrow> bool" where
  "shares_fair n m tds \<longleftrightarrow> (\<forall>t<n. word_count (tds ! t) = quota n m t)"

definition remaining :: "thread_data_t \<Rightarrow> pc \<times> nat \<Rightarrow> nat" where
  "remaining td th =
     (let d = word_count td - snd th in
      if is_chaos_mode td then
        (case fst th of LoopTest \<Rightarrow> 2 * d + 1 | Printf \<Rightarrow> 2 * d | _ \<Rightarrow> 0)
      else
        (case fst th of LoopTest \<Rightarrow> 4 * d + 1 | SemWait \<Rightarrow> 4 * d | Printf \<Rightarrow> 4 * d - 1
         | SemPost \<Rightarrow> 4 * d - 2 | Returned \<Rightarrow> 0))"

definition steps_left :: "thread_data_t list \<Rightarrow> run_state \<Rightarrow> nat" where
  "steps_left tds s = (\<Sum>t<length tds. remaining (tds ! t) (threads s ! t))"

definition local_inv :: "nat \<Rightarrow> thread_data_t list \<Rightarrow> run_state \<Rightarrow> bool" where
  "local_inv n tds s \<longleftrightarrow>
     length (threads s) = n \<and> length tds = n \<and> (\<forall>t<n. local_ok (tds ! t) (threads s ! t))"

definition strided_td :: "nat \<Rightarrow> string list \<Rightarrow> bool \<Rightarrow> nat \<Rightarrow> thread_data_t" where
  "strided_td n aw mode t =
     \<lparr>thread_id = t, words = map (\<lambda>r. aw ! (t + r * n)) [0..<quota n (length aw) t],
      word_count = quota n (length aw) t,
      sem_wait = t, sem_signal = (t + 1) mod n, is_chaos_mode = mode\<rparr>"

definition offset :: "nat \<Rightarrow> nat \<Rightarrow> nat \<Rightarrow> nat" where
  "offset n m t = t * (m div n) + min t (m mod n)"

definition block_td :: "nat \<Rightarrow> string list \<Rightarrow> bool \<Rightarrow> nat \<Rightarrow> thread_data_t" where
  "block_td n aw mode t =
     \<lparr>thread_id = t, words = map (\<lambda>j. aw ! (offset n (length aw) t + j)) [0..<quota n (length aw) t],
      word_count = quota n (length aw) t,
      sem_wait = t, sem_signal = (t + 1) mod n, is_chaos_mode = mode\<rparr>"

definition exits_at :: "process \<Rightarrow> nat \<Rightarrow> string \<Rightarrow> outcome \<times> process \<Rightarrow> bool" where
  "exits_at p k msg x \<longleftrightarrow>
     fst x = Exit EXIT_FAILURE \<and> stderr (snd x) = stderr p @ [msg] \<and>
     calls (snd x) = calls p + k + 1 \<and> out (snd x) = out p"

text \<open>The thread data of either listing in closed form.\<close>

definition share_td :: "listing \<Rightarrow> nat \<Rightarrow> string list \<Rightarrow> bool \<Rightarrow> nat \<Rightarrow> thread_data_t" where
  "share_td l n aw mode t =
     (case l of Listing1 \<Rightarrow> strided_td n aw mode t | Listing2 \<Rightarrow> block_td n aw mode t)"

definition partitioned :: "nat \<Rightarrow> string list \<Rightarrow> bool \<Rightarrow> thread_data_t list \<Rightarrow> bool" where
  "partitioned n aw mode tds \<longleftrightarrow> (\<exists>l. tds = map (share_td l n aw mode) [0..<n])"

definition pair_calls :: "nat \<Rightarrow> nat \<Rightarrow> (nat \<times> sem_op) list" where
  "pair_calls n t = [(t, Wait t), (t, Post ((t + 1) mod n))]"

definition hist_inv :: "nat \<Rightarrow> thread_data_t list \<Rightarrow> run_state \<Rightarrow> bool" where
  "hist_inv n tds s \<longleftrightarrow>
     (\<forall>e\<in>set (stdout s). fst e < n) \<and>
     (\<forall>e\<in>set (sem_calls s). fst e < n) \<and>
     (\<forall>t<n. filter (\<lambda>e. fst e = t) (stdout s) =
        map (Pair t) (take (snd (threads s ! t) + (if fst (threads s ! t) = SemPost then 1 else 0))
                           (words (tds ! t)))) \<and>
     (\<forall>t<n. filter (\<lambda>e. fst e = t) (sem_calls s) =
        (if is_chaos_mode (tds ! t) then []
         else concat (replicate (snd (threads s ! t)) (pair_calls n t)) @
              (if holds_token (threads s ! t) then [(t, Wait t)] else [])))"




text \<open>
  The order of the rotation as the specification words it: round \<open>r\<close> lists, by increasing
  id, the workers whose share has more than \<open>r\<close> items (a worker whose share is exhausted
  is skipped), and the rounds go up to the longest share.
\<close>

definition rotation :: "nat list \<Rightarrow> nat list" where
  "rotation counts =
     concat (map (\<lambda>r. filter (\<lambda>t. r < counts ! t) [0..<length counts])
                 [0..<fold max counts 0])"

lemma quota_div_mod:
  assumes "t < n"
  shows "quota n m t = m div n + (if t < m mod n then 1 else 0)"
proof -
  define q r where "q = m div n" and "r = m mod n"
  have m: "m = r + n * q" and r: "r < n"
    using assms by (simp_all add: q_def r_def)
  show ?thesis
  proof (cases "t < r")
    case True
    have "m + n - 1 - t = (r - 1 - t) + n * (q + 1)"
      using True m by simp
    moreover have "r - 1 - t < n" using r by arith
    ultimately have "quota n m t = q + 1"
      using assms unfolding quota_def by (simp only: div_mult_self2 div_less)
    then show ?thesis using True by (simp add: q_def r_def)
  next
    case False
    have "m + n - 1 - t = (n - 1 - t + r) + n * q"
      using False m assms by simp
    moreover have "n - 1 - t + r < n" using False assms by arith
    ultimately have "quota n m t = q"
      using assms unfolding quota_def by (simp only: div_mult_self2 div_less)
    then show ?thesis using False by (simp add: q_def r_def)
  qed
qed

lemma quota_step:
  assumes "0 < n" "j < m"
  shows "quota n m j = 1 + quota n m (j + n)"
proof -
  have "m + n - 1 - j = (m - 1 - j) + n" using assms by arith
  moreover have "m + n - 1 - (j + n) = m - 1 - j" by arith
  ultimately show ?thesis using assms unfolding quota_def by (simp only: div_add_self2)
qed

lemma quota_zero: "0 < n \<Longrightarrow> m \<le> j \<Longrightarrow> quota n m j = 0"
  by (simp add: quota_def)

lemma count_loop_eq:
  assumes "0 < n" and bound: "m + n \<le> INT_MAX + 1"
  shows "count_loop n m j c = Some (Inr (c + quota n m j))"
proof (induction "m - j" arbitrary: j c rule: less_induct)
  case less
  show ?case
  proof (cases "j < m")
    case True
    then have "m - (j + n) < m - j" using assms by arith
    from less[OF this] have "count_loop n m (j + n) (c + 1) = Some (Inr (c + 1 + quota n m (j + n)))" .
    moreover from True bound have "\<not> INT_MAX < j + n" by arith
    ultimately show ?thesis using True quota_step[OF assms(1) True]
      by (subst count_loop.simps) simp
  next
    case False
    then show ?thesis using quota_zero[OF assms(1), of m j] by (subst count_loop.simps) simp
  qed
qed

lemma assign_loop_eq:
  assumes "0 < n" and bound: "length aw + n \<le> INT_MAX + 1"
  shows "assign_loop n aw j ws
           = Some (Inr (ws @ map (\<lambda>r. aw ! (j + r * n)) [0..<quota n (length aw) j]))"
proof (induction "length aw - j" arbitrary: j ws rule: less_induct)
  case less
  show ?case
  proof (cases "j < length aw")
    case True
    then have "length aw - (j + n) < length aw - j" using assms by arith
    from less[OF this] have "assign_loop n aw (j + n) (ws @ [aw ! j])
       = Some (Inr ((ws @ [aw ! j]) @ map (\<lambda>r. aw ! (j + n + r * n)) [0..<quota n (length aw) (j + n)]))" .
    moreover have "map (\<lambda>r. aw ! (j + r * n)) [0..<quota n (length aw) j]
       = aw ! j # map (\<lambda>r. aw ! (j + n + r * n)) [0..<quota n (length aw) (j + n)]"
      unfolding quota_step[OF assms(1) True]
      by (simp add: upt_conv_Cons map_Suc_upt[symmetric] add.assoc del: upt_Suc)
    moreover from True bound have "\<not> INT_MAX < j + n" by arith
    ultimately show ?thesis using True by (subst assign_loop.simps) simp
  next
    case False
    then show ?thesis using quota_zero[OF assms(1), of "length aw" j] by (subst assign_loop.simps) simp
  qed
qed

lemma quota_Suc:
  assumes "t < n"
  shows "quota n (Suc k) t = quota n k t + (if t = k mod n then 1 else 0)"
  using assms by (auto simp: quota_div_mod div_Suc mod_Suc)

lemma quota_self:
  assumes "0 < n"
  shows "quota n k (k mod n) = k div n"
  using assms by (simp add: quota_div_mod)

lemma quota_0: "t < n \<Longrightarrow> quota n 0 t = 0"
  by (simp add: quota_div_mod)

lemma quota_mono: "k \<le> k' \<Longrightarrow> quota n k t \<le> quota n k' t"
  unfolding quota_def by (intro div_le_mono) arith

lemma quota_less:
  assumes "0 < n" "k < m"
  shows "k div n < quota n m (k mod n)"
proof -
  have "quota n (Suc k) (k mod n) \<le> quota n m (k mod n)"
    using assms by (intro quota_mono) simp
  then show ?thesis using assms by (simp add: quota_Suc quota_self)
qed

lemma quota_inj:
  assumes "0 < n" "\<forall>t<n. quota n k t = quota n m t"
  shows "k = m"
proof (rule ccontr)
  assume "k \<noteq> m"
  then consider "k < m" | "m < k" by arith
  then show False
  proof cases
    case 1
    have "quota n k (k mod n) = quota n m (k mod n)" using assms by simp
    with quota_less[OF assms(1) 1] show False using assms(1) by (simp add: quota_self)
  next
    case 2
    have "quota n k (m mod n) = quota n m (m mod n)" using assms by simp
    with quota_less[OF assms(1) 2] show False using assms(1) by (simp add: quota_self)
  qed
qed

lemma ring_inv_start:
  assumes "0 < n"
  shows "ring_inv n tds (start n (ring n 0))"
  using assms by (auto simp: ring_inv_def start_def local_ok_def holds_token_def quota_0)

lemma step_SomeD:
  assumes "step tds t s = Some s'"
  shows "t < length tds \<and> t < length (threads s) \<and>
         print_thread (tds ! t) t (fst (threads s ! t)) (snd (threads s ! t)) s = Some s'"
  using assms by (simp add: step_def split: if_splits)

lemma mod_pred_Suc: "0 < (n::nat) \<Longrightarrow> 0 < k \<Longrightarrow> ((k - 1) mod n + 1) mod n = k mod n"
  by (cases k) (simp_all add: mod_Suc_eq)

lemma replicate_update_same: "(replicate n x)[i := x] = replicate n x"
  by (cases "i < n") (simp_all add: list_eq_iff_nth_eq nth_list_update)

lemma ring_inv_step:
  assumes n: "0 < n" and w: "wired n False tds"
    and inv: "ring_inv n tds s" and st: "step tds t s = Some s'"
  shows "ring_inv n tds s'"
proof -
  define K where "K = length (stdout s)"
  define K' where "K' = length (stdout s')"
  define f where "f = (\<lambda>k. (k mod n, words (tds ! (k mod n)) ! (k div n)))"
  from step_SomeD[OF st] w have t: "t < n" 
    and pt: "print_thread (tds ! t) t (fst (threads s ! t)) (snd (threads s ! t)) s = Some s'"
    by (simp_all add: wired_def)
  from w t have wt: "thread_id (tds ! t) = t" "sem_wait (tds ! t) = t"
     "sem_signal (tds ! t) = (t + 1) mod n" "\<not> is_chaos_mode (tds ! t)"
    by (simp_all add: wired_def)
  obtain p i where th: "threads s ! t = (p, i)" by (cases "threads s ! t")
  from inv have len: "length (threads s) = n"
    and L: "\<forall>u<n. local_ok (tds ! u) (threads s ! u)"
    and Q: "\<forall>u<n. snd (threads s ! u) = quota n K u - (if fst (threads s ! u) = SemPost then 1 else 0)"
    and P: "\<forall>u<n. fst (threads s ! u) = Printf \<longrightarrow> u = K mod n"
    and SP: "\<forall>u<n. fst (threads s ! u) = SemPost \<longrightarrow> 0 < K \<and> u = (K - 1) mod n"
    and U: "\<forall>u<n. \<forall>v<n. holds_token (threads s ! u) \<longrightarrow> holds_token (threads s ! v) \<longrightarrow> u = v"
    and S: "semaphores s = (if \<exists>u<n. holds_token (threads s ! u) then replicate n (Some 0) else ring n (K mod n))"
    and O: "stdout s = map f [0..<K]"
    unfolding ring_inv_def K_def f_def by blast+
  from L t th have Lt: "local_ok (tds ! t) (p, i)" by auto
  from Q t th have Qt: "i = quota n K t - (if p = SemPost then 1 else 0)" by auto
  have nth': "\<And>x u. u < n \<Longrightarrow> (threads s)[t := x] ! u = (if u = t then x else threads s ! u)"
    using len by (simp add: nth_list_update)
  have goal: "ring_inv n tds s'"
    if 1: "length (threads s') = n"
    and 2: "\<forall>u<n. local_ok (tds ! u) (threads s' ! u)"
    and 3: "\<forall>u<n. snd (threads s' ! u) = quota n K' u - (if fst (threads s' ! u) = SemPost then 1 else 0)"
    and 4: "\<forall>u<n. fst (threads s' ! u) = Printf \<longrightarrow> u = K' mod n"
    and 5: "\<forall>u<n. fst (threads s' ! u) = SemPost \<longrightarrow> 0 < K' \<and> u = (K' - 1) mod n"
    and 6: "\<forall>u<n. \<forall>v<n. holds_token (threads s' ! u) \<longrightarrow> holds_token (threads s' ! v) \<longrightarrow> u = v"
    and 7: "semaphores s' = (if \<exists>u<n. holds_token (threads s' ! u) then replicate n (Some 0) else ring n (K' mod n))"
    and 8: "stdout s' = map f [0..<K']"
    unfolding ring_inv_def using that[unfolded K'_def f_def] by (intro conjI) assumption+
  show ?thesis
  proof (cases p)
    case LoopTest
    define p' where "p' = (if i < word_count (tds ! t) then SemWait else Returned)"
    from pt th wt LoopTest have s': "s' = s\<lparr>threads := (threads s)[t := (p', i)]\<rparr>"
      by (auto simp: p'_def)
    have thr: "threads s' = (threads s)[t := (p', i)]" and KK: "K' = K"
      and sem: "semaphores s' = semaphores s" and out: "stdout s' = stdout s"
      by (simp_all add: s' K_def K'_def)
    have np: "p' \<noteq> Printf" "p' \<noteq> SemPost" by (simp_all add: p'_def)
    have ht: "holds_token (threads s' ! u) = holds_token (threads s ! u)" if "u < n" for u
      using th LoopTest np that by (cases "u = t") (auto simp: thr nth' holds_token_def)
    show ?thesis
    proof (rule goal)
      show "length (threads s') = n" using len by (simp add: thr)
      show "\<forall>u<n. local_ok (tds ! u) (threads s' ! u)"
        using L Lt wt LoopTest by (auto simp: thr nth' local_ok_def p'_def)
      show "\<forall>u<n. snd (threads s' ! u) = quota n K' u - (if fst (threads s' ! u) = SemPost then 1 else 0)"
        using Q Qt np LoopTest by (auto simp: thr nth' KK)
      show "\<forall>u<n. fst (threads s' ! u) = Printf \<longrightarrow> u = K' mod n"
        using P np by (auto simp: thr nth' KK)
      show "\<forall>u<n. fst (threads s' ! u) = SemPost \<longrightarrow> 0 < K' \<and> u = (K' - 1) mod n"
        using SP np by (auto simp: thr nth' KK)
      show "\<forall>u<n. \<forall>v<n. holds_token (threads s' ! u) \<longrightarrow> holds_token (threads s' ! v) \<longrightarrow> u = v"
        using U by (simp add: ht)
      show "semaphores s' = (if \<exists>u<n. holds_token (threads s' ! u) then replicate n (Some 0) else ring n (K' mod n))"
        using S by (simp add: sem ht KK cong: conj_cong)
      show "stdout s' = map f [0..<K']" using O by (simp add: out KK)
    qed
  next
    case SemWait
    from pt th wt SemWait obtain c where c: "semaphores s ! t = Some (Suc c)"
      and s': "s' = s\<lparr>threads := (threads s)[t := (Printf, i)],
                  semaphores := (semaphores s)[t := Some c],
                  sem_calls := sem_calls s @ [(t, Wait t)]\<rparr>"
      by (auto split: option.splits nat.splits)
    have thr: "threads s' = (threads s)[t := (Printf, i)]" and KK: "K' = K"
      and sem: "semaphores s' = (semaphores s)[t := Some c]" and out: "stdout s' = stdout s"
      by (simp_all add: s' K_def K'_def)
    from c S t have noh: "\<not> (\<exists>u<n. holds_token (threads s ! u))" and tK: "K mod n = t"
      by (auto simp: ring_def nth_list_update split: if_splits)
    from c S noh tK t have c0: "c = 0" by (simp add: ring_def)
    have ht: "holds_token (threads s' ! u) \<longleftrightarrow> u = t" if "u < n" for u
      using noh that by (cases "u = t") (auto simp: thr nth' holds_token_def)
    show ?thesis
    proof (rule goal)
      show "length (threads s') = n" using len by (simp add: thr)
      show "\<forall>u<n. local_ok (tds ! u) (threads s' ! u)"
        using L Lt wt SemWait by (auto simp: thr nth' local_ok_def)
      show "\<forall>u<n. snd (threads s' ! u) = quota n K' u - (if fst (threads s' ! u) = SemPost then 1 else 0)"
        using Q Qt SemWait by (auto simp: thr nth' KK)
      show "\<forall>u<n. fst (threads s' ! u) = Printf \<longrightarrow> u = K' mod n"
        using noh by (auto simp: thr nth' KK tK holds_token_def)
      show "\<forall>u<n. fst (threads s' ! u) = SemPost \<longrightarrow> 0 < K' \<and> u = (K' - 1) mod n"
        using SP by (auto simp: thr nth' KK)
      show "\<forall>u<n. \<forall>v<n. holds_token (threads s' ! u) \<longrightarrow> holds_token (threads s' ! v) \<longrightarrow> u = v"
        by (simp add: ht)
      have "\<exists>u<n. holds_token (threads s' ! u)" using t ht[of t] by auto
      moreover have "semaphores s' = replicate n (Some 0)"
        using S noh c0 by (simp add: sem tK ring_def replicate_update_same)
      ultimately show "semaphores s' = (if \<exists>u<n. holds_token (threads s' ! u) then replicate n (Some 0) else ring n (K' mod n))"
        by simp
      show "stdout s' = map f [0..<K']" using O by (simp add: out KK)
    qed
  next
    case Printf
    from pt th wt Printf have s': "s' = s\<lparr>threads := (threads s)[t := (SemPost, i)],
             stdout := stdout s @ [(t, words (tds ! t) ! i)]\<rparr>"
      by auto
    have thr: "threads s' = (threads s)[t := (SemPost, i)]" and KK: "K' = Suc K"
      and sem: "semaphores s' = semaphores s" and out: "stdout s' = stdout s @ [(t, words (tds ! t) ! i)]"
      by (simp_all add: s' K_def K'_def)
    from P t th Printf have tK: "K mod n = t" by auto
    from Qt Printf n have iK: "i = K div n" using quota_self[OF n, of K] by (simp add: tK)
    have hs: "holds_token (threads s ! t)" using th Printf by (simp add: holds_token_def)
    have ho: "\<not> holds_token (threads s ! u)" if "u < n" "u \<noteq> t" for u
      using U hs that t by blast
    have ht: "holds_token (threads s' ! u) \<longleftrightarrow> u = t" if "u < n" for u
      using ho that by (cases "u = t") (auto simp: thr nth' holds_token_def)
    show ?thesis
    proof (rule goal)
      show "length (threads s') = n" using len by (simp add: thr)
      show "\<forall>u<n. local_ok (tds ! u) (threads s' ! u)"
        using L Lt wt Printf by (auto simp: thr nth' local_ok_def)
      show "\<forall>u<n. snd (threads s' ! u) = quota n K' u - (if fst (threads s' ! u) = SemPost then 1 else 0)"
      proof (intro allI impI)
        fix u assume u: "u < n"
        show "snd (threads s' ! u) = quota n K' u - (if fst (threads s' ! u) = SemPost then 1 else 0)"
        proof (cases "u = t")
          case True
          then show ?thesis using Qt Printf u by (simp add: KK thr nth' quota_Suc tK)
        next
          case False
          with ho[OF u] have "fst (threads s ! u) \<noteq> SemPost" by (auto simp: holds_token_def)
          then show ?thesis using Q False u by (simp add: KK thr nth' quota_Suc tK)
        qed
      qed
      show "\<forall>u<n. fst (threads s' ! u) = Printf \<longrightarrow> u = K' mod n"
        using ho by (auto simp: thr nth' holds_token_def)
      show "\<forall>u<n. fst (threads s' ! u) = SemPost \<longrightarrow> 0 < K' \<and> u = (K' - 1) mod n"
        using ho by (auto simp: KK thr nth' tK holds_token_def)
      show "\<forall>u<n. \<forall>v<n. holds_token (threads s' ! u) \<longrightarrow> holds_token (threads s' ! v) \<longrightarrow> u = v"
        by (simp add: ht)
      have "\<exists>u<n. holds_token (threads s' ! u)" using t ht[of t] by auto
      moreover have "\<exists>u<n. holds_token (threads s ! u)" using t hs by blast
      then have "semaphores s' = replicate n (Some 0)"
        using S by (simp add: sem)
      ultimately show "semaphores s' = (if \<exists>u<n. holds_token (threads s' ! u) then replicate n (Some 0) else ring n (K' mod n))"
        by simp
      have "f K = (t, words (tds ! t) ! i)" by (simp add: f_def tK iK)
      then show "stdout s' = map f [0..<K']" using O by (simp add: out KK)
    qed
  next
    case SemPost
    from SP t th SemPost have Kpos: "0 < K" and tK: "(K - 1) mod n = t" by auto
    have hs: "holds_token (threads s ! t)" using th SemPost by (simp add: holds_token_def)
    have ho: "\<not> holds_token (threads s ! u)" if "u < n" "u \<noteq> t" for u
      using U hs that t by blast
    have "\<exists>u<n. holds_token (threads s ! u)" using t hs by blast
    with S have S0: "semaphores s = replicate n (Some 0)" by simp
    have nx: "(t + 1) mod n = K mod n" using mod_pred_Suc[OF n Kpos] unfolding tK .
    from pt th wt SemPost S0 n have s': "s' = s\<lparr>threads := (threads s)[t := (LoopTest, i + 1)],
                  semaphores := (semaphores s)[(t + 1) mod n := Some (Suc 0)],
                  sem_calls := sem_calls s @ [(t, Post ((t + 1) mod n))]\<rparr>"
      by (auto simp: SEM_VALUE_MAX_def)
    have thr: "threads s' = (threads s)[t := (LoopTest, i + 1)]" and KK: "K' = K"
      and sem: "semaphores s' = (semaphores s)[(t + 1) mod n := Some (Suc 0)]" and out: "stdout s' = stdout s"
      by (simp_all add: s' K_def K'_def)
    have ht: "\<not> holds_token (threads s' ! u)" if "u < n" for u
      using ho that by (cases "u = t") (auto simp: thr nth' holds_token_def)
    show ?thesis
    proof (rule goal)
      show "length (threads s') = n" using len by (simp add: thr)
      show "\<forall>u<n. local_ok (tds ! u) (threads s' ! u)"
        using L Lt wt SemPost by (auto simp: thr nth' local_ok_def)
      show "\<forall>u<n. snd (threads s' ! u) = quota n K' u - (if fst (threads s' ! u) = SemPost then 1 else 0)"
      proof (intro allI impI)
        fix u assume u: "u < n"
        show "snd (threads s' ! u) = quota n K' u - (if fst (threads s' ! u) = SemPost then 1 else 0)"
        proof (cases "u = t")
          case True
          have "(K - 1) div n < quota n K ((K - 1) mod n)"
            using quota_less[OF n, of "K - 1" K] Kpos by simp
          then have "0 < quota n K t" unfolding tK by simp
          then show ?thesis using Qt SemPost True u by (simp add: thr nth' KK)
        next
          case False
          then show ?thesis using Q u by (simp add: thr nth' KK)
        qed
      qed
      show "\<forall>u<n. fst (threads s' ! u) = Printf \<longrightarrow> u = K' mod n"
        using ho by (auto simp: thr nth' holds_token_def)
      show "\<forall>u<n. fst (threads s' ! u) = SemPost \<longrightarrow> 0 < K' \<and> u = (K' - 1) mod n"
        using ho by (auto simp: thr nth' holds_token_def)
      show "\<forall>u<n. \<forall>v<n. holds_token (threads s' ! u) \<longrightarrow> holds_token (threads s' ! v) \<longrightarrow> u = v"
        using ht by simp
      have "\<not> (\<exists>u<n. holds_token (threads s' ! u))" using ht by auto
      moreover have "semaphores s' = ring n (K' mod n)"
        using S0 nx by (simp add: sem ring_def KK)
      ultimately show "semaphores s' = (if \<exists>u<n. holds_token (threads s' ! u) then replicate n (Some 0) else ring n (K' mod n))"
        by (simp only: if_False)
      show "stdout s' = map f [0..<K']" using O by (simp add: out KK)
    qed
  next
    case Returned
    with pt th show ?thesis by simp
  qed
qed

lemma ring_inv_run:
  assumes "0 < n" "wired n False tds"
  shows "ring_inv n tds s \<Longrightarrow> run tds sched s = Some s' \<Longrightarrow> ring_inv n tds s'"
proof (induction sched arbitrary: s)
  case Nil
  then show ?case by simp
next
  case (Cons t ts)
  from Cons.prems(2) obtain s1 where 1: "step tds t s = Some s1" and 2: "run tds ts s1 = Some s'"
    by (auto split: option.splits)
  from ring_inv_step[OF assms Cons.prems(1) 1] have "ring_inv n tds s1" .
  from Cons.IH[OF this 2] show ?case .
qed

lemma run_append:
  "run tds (xs @ ys) s = (case run tds xs s of None \<Rightarrow> None | Some s1 \<Rightarrow> run tds ys s1)"
  by (induction xs arbitrary: s) (auto split: option.splits)

lemma ring_progress:
  assumes n: "0 < n" and w: "wired n False tds" and c: "shares_fair n m tds"
    and inv: "ring_inv n tds s" and nr: "\<not> all_returned s"
  shows "\<exists>t<n. step tds t s \<noteq> None"
proof -
  define K where "K = length (stdout s)"
  from inv have len: "length (threads s) = n"
    and L: "\<forall>u<n. local_ok (tds ! u) (threads s ! u)"
    and Q: "\<forall>u<n. snd (threads s ! u) = quota n K u - (if fst (threads s ! u) = SemPost then 1 else 0)"
    and S: "semaphores s = (if \<exists>u<n. holds_token (threads s ! u) then replicate n (Some 0) else ring n (K mod n))"
    unfolding ring_inv_def K_def by blast+
  from w have ltds: "length tds = n" by (simp add: wired_def)
  have stp: "step tds u s = print_thread (tds ! u) u (fst (threads s ! u)) (snd (threads s ! u)) s"
    if "u < n" for u using that len ltds by (simp add: step_def)
  show ?thesis
  proof (cases "\<exists>u<n. fst (threads s ! u) \<in> {LoopTest, Printf, SemPost}")
    case True
    then obtain u where u: "u < n" and pu: "fst (threads s ! u) \<in> {LoopTest, Printf, SemPost}" by blast
    from w u have sg: "sem_signal (tds ! u) = (u + 1) mod n" by (simp add: wired_def)
    have "step tds u s \<noteq> None"
    proof (cases "fst (threads s ! u) = SemPost")
      case True
      then have "\<exists>u<n. holds_token (threads s ! u)" using u by (auto simp: holds_token_def)
      with S have "semaphores s = replicate n (Some 0)" by simp
      then show ?thesis using True n by (simp add: stp[OF u] sg)
    next
      case False
      with pu show ?thesis by (auto simp: stp[OF u])
    qed
    with u show ?thesis by blast
  next
    case False
    then have pcs: "fst (threads s ! u) = SemWait \<or> fst (threads s ! u) = Returned" if "u < n" for u
      using that by (cases "fst (threads s ! u)") auto
    have noh: "\<not> (\<exists>u<n. holds_token (threads s ! u))"
    proof
      assume "\<exists>u<n. holds_token (threads s ! u)"
      then obtain u where u: "u < n" and "holds_token (threads s ! u)" by blast
      with pcs[OF u] show False by (auto simp: holds_token_def)
    qed
    with S have S': "semaphores s = ring n (K mod n)" by simp
    from nr len obtain u where u: "u < n" and "fst (threads s ! u) \<noteq> Returned"
      by (auto simp: all_returned_def list_all_length)
    with pcs have uw: "fst (threads s ! u) = SemWait" by blast
    with L u have "snd (threads s ! u) < word_count (tds ! u)" by (auto simp: local_ok_def)
    with Q u uw c have "quota n K u < quota n m u" by (simp add: shares_fair_def)
    then have KM: "K < m" using quota_mono[of m K n u] by (cases "K < m") auto
    define j where "j = K mod n"
    have j: "j < n" using n by (simp add: j_def)
    have "K div n < quota n m j" unfolding j_def by (rule quota_less[OF n KM])
    moreover have "snd (threads s ! j) = K div n"
      using Q j pcs[OF j] quota_self[OF n, of K] by (auto simp: j_def)
    ultimately have "snd (threads s ! j) \<noteq> word_count (tds ! j)" using c j by (simp add: shares_fair_def)
    with L j have "fst (threads s ! j) \<noteq> Returned" by (auto simp: local_ok_def)
    with pcs[OF j] have jw: "fst (threads s ! j) = SemWait" by simp
    from w j have "sem_wait (tds ! j) = j" by (simp add: wired_def)
    moreover have "semaphores s ! j = Some (Suc 0)"
      using S' j by (simp add: ring_def j_def)
    ultimately have "step tds j s \<noteq> None"
      using jw by (simp add: stp[OF j])
    with j show ?thesis by blast
  qed
qed

lemma print_thread_local:
  assumes "print_thread td t p i s = Some s'" "local_ok td (p, i)"
  shows "\<exists>th'. threads s' = (threads s)[t := th'] \<and> local_ok td th' \<and>
           remaining td (p, i) = Suc (remaining td th')"
proof (cases p)
  case LoopTest
  define th' where "th' = (if i < word_count td then (if is_chaos_mode td then Printf else SemWait)
              else Returned, i)"
  from assms LoopTest have "threads s' = (threads s)[t := th']" by (auto simp: th'_def)
  moreover from assms LoopTest have "local_ok td th'" by (auto simp: th'_def local_ok_def)
  moreover from assms LoopTest have "remaining td (p, i) = Suc (remaining td th')"
    by (auto simp: th'_def local_ok_def remaining_def)
  ultimately show ?thesis by blast
next
  case SemWait
  define th' where "th' = (Printf, i)"
  from assms SemWait have "threads s' = (threads s)[t := th']"
    by (auto simp: th'_def split: option.splits nat.splits)
  moreover from assms SemWait have "local_ok td th'" by (auto simp: th'_def local_ok_def)
  moreover from assms SemWait have "remaining td (p, i) = Suc (remaining td th')"
    by (auto simp: th'_def local_ok_def remaining_def)
  ultimately show ?thesis by blast
next
  case Printf
  define th' where "th' = (if is_chaos_mode td then (LoopTest, i + 1) else (SemPost, i))"
  from assms Printf have "threads s' = (threads s)[t := th']" by (auto simp: th'_def)
  moreover from assms Printf have "local_ok td th'" by (auto simp: th'_def local_ok_def)
  moreover from assms Printf have "remaining td (p, i) = Suc (remaining td th')"
    by (auto simp: th'_def local_ok_def remaining_def)
  ultimately show ?thesis by blast
next
  case SemPost
  define th' where "th' = (LoopTest, i + 1)"
  from assms SemPost have "threads s' = (threads s)[t := th']"
    by (auto simp: th'_def split: option.splits)
  moreover from assms SemPost have "local_ok td th'" by (auto simp: th'_def local_ok_def)
  moreover from assms SemPost have "remaining td (p, i) = Suc (remaining td th')"
    by (auto simp: th'_def local_ok_def remaining_def)
  ultimately show ?thesis by blast
next
  case Returned
  with assms show ?thesis by simp
qed

lemma step_local:
  assumes inv: "local_inv n tds s" and st: "step tds t s = Some s'"
  shows "local_inv n tds s' \<and> steps_left tds s = Suc (steps_left tds s')"
proof -
  from inv have len: "length (threads s) = n" "length tds = n"
    and L: "\<forall>u<n. local_ok (tds ! u) (threads s ! u)"
    by (simp_all add: local_inv_def)
  from step_SomeD[OF st] len have t: "t < n"
    and pt: "print_thread (tds ! t) t (fst (threads s ! t)) (snd (threads s ! t)) s = Some s'"
    by simp_all
  from L t have "local_ok (tds ! t) (fst (threads s ! t), snd (threads s ! t))" by simp
  from print_thread_local[OF pt this] obtain th' where
    thr: "threads s' = (threads s)[t := th']" and ok: "local_ok (tds ! t) th'"
    and rem: "remaining (tds ! t) (threads s ! t) = Suc (remaining (tds ! t) th')"
    by auto
  have 1: "local_inv n tds s'"
    using len L ok t by (auto simp: local_inv_def thr nth_list_update)
  have fin: "finite {..<n}" and mem: "t \<in> {..<n}" using t by simp_all
  have "steps_left tds s =
      remaining (tds ! t) (threads s ! t) + (\<Sum>u\<in>{..<n} - {t}. remaining (tds ! u) (threads s ! u))"
    unfolding steps_left_def len by (rule sum.remove[OF fin mem])
  moreover have "steps_left tds s' =
      remaining (tds ! t) (threads s' ! t) + (\<Sum>u\<in>{..<n} - {t}. remaining (tds ! u) (threads s' ! u))"
    unfolding steps_left_def len by (rule sum.remove[OF fin mem])
  moreover have "(\<Sum>u\<in>{..<n} - {t}. remaining (tds ! u) (threads s' ! u))
      = (\<Sum>u\<in>{..<n} - {t}. remaining (tds ! u) (threads s ! u))"
    by (rule sum.cong) (auto simp: thr)
  moreover have "threads s' ! t = th'" using t len by (simp add: thr)
  ultimately show ?thesis using 1 rem by simp
qed

lemma run_local:
  "local_inv n tds s \<Longrightarrow> run tds sched s = Some s' \<Longrightarrow>
     local_inv n tds s' \<and> steps_left tds s = length sched + steps_left tds s'"
proof (induction sched arbitrary: s)
  case Nil
  then show ?case by simp
next
  case (Cons t ts)
  from Cons.prems(2) obtain s1 where 1: "step tds t s = Some s1" and 2: "run tds ts s1 = Some s'"
    by (auto split: option.splits)
  from step_local[OF Cons.prems(1) 1] Cons.IH[OF _ 2] show ?case by simp
qed

lemma local_inv_start:
  "length tds = n \<Longrightarrow> local_inv n tds (start n ss)"
  by (simp add: local_inv_def start_def local_ok_def)

lemma ring_inv_local: "wired n mode tds \<Longrightarrow> ring_inv n tds s \<Longrightarrow> local_inv n tds s"
  by (simp add: ring_inv_def local_inv_def wired_def)

lemma chaos_progress:
  assumes w: "wired n True tds" and inv: "local_inv n tds s" and nr: "\<not> all_returned s"
  shows "\<exists>t<n. step tds t s \<noteq> None"
proof -
  from inv have len: "length (threads s) = n" "length tds = n"
    and L: "\<forall>u<n. local_ok (tds ! u) (threads s ! u)"
    by (simp_all add: local_inv_def)
  from nr len obtain u where u: "u < n" and nu: "fst (threads s ! u) \<noteq> Returned"
    by (auto simp: all_returned_def list_all_length)
  from w u have "is_chaos_mode (tds ! u)" by (simp add: wired_def)
  with L u nu have "fst (threads s ! u) = LoopTest \<or> fst (threads s ! u) = Printf"
    by (cases "fst (threads s ! u)") (auto simp: local_ok_def)
  then have "step tds u s \<noteq> None" using u len by (auto simp: step_def)
  with u show ?thesis by blast
qed

text \<open>Every reachable state extends to one in which all workers have returned.\<close>

lemma sync_completes:
  assumes n: "0 < n" and w: "wired n False tds" and c: "shares_fair n m tds"
  shows "ring_inv n tds s \<Longrightarrow> \<exists>sched s'. run tds sched s = Some s' \<and> all_returned s'"
proof (induction "steps_left tds s" arbitrary: s rule: less_induct)
  case less
  show ?case
  proof (cases "all_returned s")
    case True
    then have "run tds [] s = Some s \<and> all_returned s" by simp
    then show ?thesis by blast
  next
    case False
    from ring_progress[OF n w c less.prems False] obtain t s1 where
      st: "step tds t s = Some s1" by auto
    from step_local[OF ring_inv_local[OF w less.prems] st]
    have lt: "steps_left tds s1 < steps_left tds s" by simp
    from less.hyps[OF lt ring_inv_step[OF n w less.prems st]] obtain sched s' where
      "run tds sched s1 = Some s'" "all_returned s'" by blast
    with st have "run tds (t # sched) s = Some s' \<and> all_returned s'" by simp
    then show ?thesis by blast
  qed
qed

lemma chaos_completes:
  assumes w: "wired n True tds"
  shows "local_inv n tds s \<Longrightarrow> \<exists>sched s'. run tds sched s = Some s' \<and> all_returned s'"
proof (induction "steps_left tds s" arbitrary: s rule: less_induct)
  case less
  show ?case
  proof (cases "all_returned s")
    case True
    then have "run tds [] s = Some s \<and> all_returned s" by simp
    then show ?thesis by blast
  next
    case False
    from chaos_progress[OF w less.prems False] obtain t s1 where
      st: "step tds t s = Some s1" by auto
    from step_local[OF less.prems st]
    have lt: "steps_left tds s1 < steps_left tds s" and inv1: "local_inv n tds s1" by simp_all
    from less.hyps[OF lt inv1] obtain sched s' where
      "run tds sched s1 = Some s'" "all_returned s'" by blast
    with st have "run tds (t # sched) s = Some s' \<and> all_returned s'" by simp
    then show ?thesis by blast
  qed
qed

lemma or_exit_ok: "env (calls p) \<Longrightarrow> or_exit env msg p = Inr (p\<lparr>calls := calls p + 1\<rparr>)"
  by (simp add: or_exit_def)

lemma or_exit_fail:
  "\<not> env (calls p) \<Longrightarrow>
   or_exit env msg p = Inl (Exit EXIT_FAILURE, p\<lparr>stderr := stderr p @ [msg], calls := calls p + 1\<rparr>)"
  by (simp add: or_exit_def)

lemma first_failure:
  assumes "\<not> (\<forall>k<(N::nat). P k)"
  shows "\<exists>k<N. \<not> P k \<and> (\<forall>j<k. P j)"
proof -
  from assms have "\<exists>k. k < N \<and> \<not> P k" by blast
  then obtain k where k: "k < N \<and> \<not> P k" and least: "\<forall>m<k. \<not> (m < N \<and> \<not> P m)"
    using exists_least_iff[of "\<lambda>k. k < N \<and> \<not> P k"] by blast
  from k least have "\<forall>j<k. P j" by (metis less_trans)
  with k show ?thesis by blast
qed

text \<open>The creation loop of the first listing.\<close>

lemma threads_loop_v1_ok:
  assumes n: "0 < n" and bound: "length aw + n \<le> INT_MAX + 1"
  shows "i \<le> n \<Longrightarrow> \<forall>k<2 * (n - i). env (calls p + k) \<Longrightarrow>
    threads_loop_v1 n env aw mode i tds p =
      Some (Inr (tds @ map (strided_td n aw mode) [i..<n], p\<lparr>calls := calls p + 2 * (n - i)\<rparr>))"
proof (induction "n - i" arbitrary: i tds p)
  case 0
  then show ?case by (subst threads_loop_v1.simps) simp
next
  case (Suc d)
  from Suc.hyps(2) have i: "i < n" by simp
  from Suc.prems(2) i have e0: "env (calls p)" and e1: "env (calls p + 1)"
    using Suc.prems(2)[rule_format, of 0] Suc.prems(2)[rule_format, of 1] by simp_all
  define p2 where "p2 = p\<lparr>calls := calls p + 2\<rparr>"
  define td where "td = strided_td n aw mode i"
  have d: "d = n - (i + 1)" using Suc.hyps(2) by simp
  have "\<forall>k<2 * (n - (i + 1)). env (calls p2 + k)"
  proof (intro allI impI)
    fix k assume "k < 2 * (n - (i + 1))"
    then have "2 + k < 2 * (n - i)" using i by simp
    from Suc.prems(2)[rule_format, OF this] show "env (calls p2 + k)"
      by (simp add: p2_def add.assoc)
  qed
  from Suc.hyps(1)[OF d _ this, of "tds @ [td]"] i
  have IH: "threads_loop_v1 n env aw mode (i + 1) (tds @ [td]) p2 =
      Some (Inr ((tds @ [td]) @ map (strided_td n aw mode) [i + 1..<n],
                 p2\<lparr>calls := calls p2 + 2 * (n - (i + 1))\<rparr>))"
    by simp
  have c: "p2\<lparr>calls := calls p2 + 2 * (n - (i + 1))\<rparr> = p\<lparr>calls := calls p + 2 * (n - i)\<rparr>"
    using i by (simp add: p2_def)
  have l: "(tds @ [td]) @ map (strided_td n aw mode) [i + 1..<n] = tds @ map (strided_td n aw mode) [i..<n]"
    using i by (simp add: upt_conv_Cons td_def)
  have e1': "env (Suc (calls p))" using e1 by simp
  have step: "threads_loop_v1 n env aw mode i tds p
      = threads_loop_v1 n env aw mode (i + 1) (tds @ [td]) p2"
    by (subst threads_loop_v1.simps)
       (simp add: i count_loop_eq[OF n bound] assign_loop_eq[OF n bound] or_exit_def e0 e1'
          p2_def td_def strided_td_def)
  show ?case by (simp only: step IH c l)
qed

lemma exits_at_shift:
  assumes "exits_at p2 k msg x" "stderr p2 = stderr p" "calls p2 = calls p + d" "out p2 = out p"
  shows "exits_at p (d + k) msg x"
  using assms by (simp add: exits_at_def)

lemma threads_loop_v1_fail:
  assumes n: "0 < n" and bound: "length aw + n \<le> INT_MAX + 1"
  shows "k < 2 * (n - i) \<Longrightarrow> \<not> env (calls p + k) \<Longrightarrow> \<forall>j<k. env (calls p + j) \<Longrightarrow>
    \<exists>x. threads_loop_v1 n env aw mode i tds p = Some (Inl x) \<and>
        exits_at p k (if even k then ''malloc failed'' else ''pthread_create failed'') x"
proof (induction "n - i" arbitrary: i tds p k)
  case 0
  then show ?case by simp
next
  case (Suc d)
  from Suc.hyps(2) have i: "i < n" by simp
  consider "k = 0" | "k = 1" | "2 \<le> k" by arith
  then show ?case
  proof cases
    case 1
    with Suc.prems(2) have "\<not> env (calls p)" by simp
    then have "threads_loop_v1 n env aw mode i tds p =
        Some (Inl (Exit EXIT_FAILURE, p\<lparr>stderr := stderr p @ [''malloc failed''], calls := calls p + 1\<rparr>))"
      by (subst threads_loop_v1.simps) (simp add: i count_loop_eq[OF n bound] or_exit_def)
    then show ?thesis using 1 by (simp add: exits_at_def)
  next
    case 2
    with Suc.prems have "env (calls p)" "\<not> env (Suc (calls p))" by simp_all
    then have "threads_loop_v1 n env aw mode i tds p =
        Some (Inl (Exit EXIT_FAILURE,
                   p\<lparr>stderr := stderr p @ [''pthread_create failed''], calls := calls p + 2\<rparr>))"
      by (subst threads_loop_v1.simps)
         (simp add: i count_loop_eq[OF n bound] assign_loop_eq[OF n bound] or_exit_def)
    then show ?thesis using 2 by (simp add: exits_at_def)
  next
    case 3
    define p2 where "p2 = p\<lparr>calls := calls p + 2\<rparr>"
    define td where "td = strided_td n aw mode i"
    from 3 Suc.prems(3) have e0: "env (calls p)" and e1': "env (Suc (calls p))"
      using Suc.prems(3)[rule_format, of 0] Suc.prems(3)[rule_format, of 1] by simp_all
    have step: "threads_loop_v1 n env aw mode i tds p
        = threads_loop_v1 n env aw mode (i + 1) (tds @ [td]) p2"
      by (subst threads_loop_v1.simps)
         (simp add: i count_loop_eq[OF n bound] assign_loop_eq[OF n bound] or_exit_def e0 e1'
            p2_def td_def strided_td_def)
    have d: "d = n - (i + 1)" using Suc.hyps(2) by simp
    have a: "k - 2 < 2 * (n - (i + 1))" using Suc.prems(1) 3 i by arith
    have "calls p2 + (k - 2) = calls p + k" using 3 by (simp add: p2_def)
    then have b: "\<not> env (calls p2 + (k - 2))" using Suc.prems(2) by simp
    have c: "\<forall>j<k - 2. env (calls p2 + j)"
    proof (intro allI impI)
      fix j assume "j < k - 2"
      then have "2 + j < k" by arith
      from Suc.prems(3)[rule_format, OF this] show "env (calls p2 + j)"
        by (simp add: p2_def add.assoc)
    qed
    from Suc.hyps(1)[OF d a b c, of "tds @ [td]"] obtain x where
      x: "threads_loop_v1 n env aw mode (i + 1) (tds @ [td]) p2 = Some (Inl x)"
         "exits_at p2 (k - 2) (if even (k - 2) then ''malloc failed'' else ''pthread_create failed'') x"
      by blast
    have "exits_at p (2 + (k - 2)) (if even (k - 2) then ''malloc failed'' else ''pthread_create failed'') x"
      by (rule exits_at_shift[OF x(2)]) (simp_all add: p2_def)
    moreover have "2 + (k - 2) = k" "even (k - 2) = even k" using 3 by simp_all
    ultimately show ?thesis using x(1) step by simp
  qed
qed

text \<open>The creation loop of the second listing.\<close>

lemma threads_loop_v2_step:
  assumes i: "i < n" and e0: "env (calls p)" and e1: "env (calls p + 1)"
    and wi: "word_index = offset n (length aw) i"
  shows "threads_loop_v2 n env aw mode i word_index tds p
      = threads_loop_v2 n env aw mode (i + 1) (offset n (length aw) (i + 1))
          (tds @ [block_td n aw mode i]) (p\<lparr>calls := calls p + 2\<rparr>)"
proof -
  have wc: "length aw div n + (if i < length aw mod n then 1 else 0) = quota n (length aw) i"
    using i by (simp add: quota_div_mod)
  have os: "offset n (length aw) (Suc i) = offset n (length aw) i + quota n (length aw) i"
    using i by (auto simp: offset_def quota_div_mod min_def)
  have e1': "env (Suc (calls p))" using e1 by simp
  show ?thesis
    apply (subst threads_loop_v2.simps)
    apply (simp only: Let_def wc)
    apply (simp add: i or_exit_def e0 e1' block_td_def wi os)
    done
qed

lemma threads_loop_v2_ok:
  shows "i \<le> n \<Longrightarrow> \<forall>k<2 * (n - i). env (calls p + k) \<Longrightarrow>
    word_index = offset n (length aw) i \<Longrightarrow>
    threads_loop_v2 n env aw mode i word_index tds p =
      Inr (tds @ map (block_td n aw mode) [i..<n], p\<lparr>calls := calls p + 2 * (n - i)\<rparr>)"
proof (induction "n - i" arbitrary: i tds p word_index)
  case 0
  then show ?case by (subst threads_loop_v2.simps) simp
next
  case (Suc d)
  from Suc.hyps(2) have i: "i < n" by simp
  from i have e0: "env (calls p)" and e1: "env (calls p + 1)"
    using Suc.prems(2)[rule_format, of 0] Suc.prems(2)[rule_format, of 1] by simp_all
  define p2 where "p2 = p\<lparr>calls := calls p + 2\<rparr>"
  define td where "td = block_td n aw mode i"
  have d: "d = n - (i + 1)" using Suc.hyps(2) by simp
  have "\<forall>k<2 * (n - (i + 1)). env (calls p2 + k)"
  proof (intro allI impI)
    fix k assume "k < 2 * (n - (i + 1))"
    then have "2 + k < 2 * (n - i)" using i by simp
    from Suc.prems(2)[rule_format, OF this] show "env (calls p2 + k)"
      by (simp add: p2_def add.assoc)
  qed
  from Suc.hyps(1)[OF d _ this refl, of "tds @ [td]"] i
  have IH: "threads_loop_v2 n env aw mode (i + 1) (offset n (length aw) (i + 1)) (tds @ [td]) p2 =
      Inr ((tds @ [td]) @ map (block_td n aw mode) [i + 1..<n],
           p2\<lparr>calls := calls p2 + 2 * (n - (i + 1))\<rparr>)"
    by simp
  have c: "p2\<lparr>calls := calls p2 + 2 * (n - (i + 1))\<rparr> = p\<lparr>calls := calls p + 2 * (n - i)\<rparr>"
    using i by (simp add: p2_def)
  have l: "(tds @ [td]) @ map (block_td n aw mode) [i + 1..<n] = tds @ map (block_td n aw mode) [i..<n]"
    using i by (simp add: upt_conv_Cons td_def)
  from IH c l show ?case
    unfolding threads_loop_v2_step[OF i e0 e1 Suc.prems(3)] td_def p2_def by simp
qed

lemma threads_loop_v2_fail:
  shows "k < 2 * (n - i) \<Longrightarrow> \<not> env (calls p + k) \<Longrightarrow> \<forall>j<k. env (calls p + j) \<Longrightarrow>
    word_index = offset n (length aw) i \<Longrightarrow>
    \<exists>x. threads_loop_v2 n env aw mode i word_index tds p = Inl x \<and>
        exits_at p k (if even k then ''malloc failed'' else ''pthread_create failed'') x"
proof (induction "n - i" arbitrary: i tds p k word_index)
  case 0
  then show ?case by simp
next
  case (Suc d)
  from Suc.hyps(2) have i: "i < n" by simp
  consider "k = 0" | "k = 1" | "2 \<le> k" by arith
  then show ?case
  proof cases
    case 1
    with Suc.prems(2) have "\<not> env (calls p)" by simp
    then have "threads_loop_v2 n env aw mode i word_index tds p =
        Inl (Exit EXIT_FAILURE, p\<lparr>stderr := stderr p @ [''malloc failed''], calls := calls p + 1\<rparr>)"
      by (subst threads_loop_v2.simps) (simp add: i or_exit_def Let_def)
    then show ?thesis using 1 by (simp add: exits_at_def)
  next
    case 2
    with Suc.prems have "env (calls p)" "\<not> env (Suc (calls p))" by simp_all
    then have "threads_loop_v2 n env aw mode i word_index tds p =
        Inl (Exit EXIT_FAILURE,
             p\<lparr>stderr := stderr p @ [''pthread_create failed''], calls := calls p + 2\<rparr>)"
      by (subst threads_loop_v2.simps) (simp add: i or_exit_def Let_def)
    then show ?thesis using 2 by (simp add: exits_at_def)
  next
    case 3
    define p2 where "p2 = p\<lparr>calls := calls p + 2\<rparr>"
    define td where "td = block_td n aw mode i"
    from 3 have e0: "env (calls p)" and e1: "env (calls p + 1)"
      using Suc.prems(3)[rule_format, of 0] Suc.prems(3)[rule_format, of 1] by simp_all
    note step = threads_loop_v2_step[OF i e0 e1 Suc.prems(4), of mode tds]
    have d: "d = n - (i + 1)" using Suc.hyps(2) by simp
    have a: "k - 2 < 2 * (n - (i + 1))" using Suc.prems(1) 3 i by arith
    have "calls p2 + (k - 2) = calls p + k" using 3 by (simp add: p2_def)
    then have b: "\<not> env (calls p2 + (k - 2))" using Suc.prems(2) by simp
    have c: "\<forall>j<k - 2. env (calls p2 + j)"
    proof (intro allI impI)
      fix j assume "j < k - 2"
      then have "2 + j < k" by arith
      from Suc.prems(3)[rule_format, OF this] show "env (calls p2 + j)"
        by (simp add: p2_def add.assoc)
    qed
    from Suc.hyps(1)[OF d a b c refl, of "tds @ [td]"] obtain x where
      x: "threads_loop_v2 n env aw mode (i + 1) (offset n (length aw) (i + 1)) (tds @ [td]) p2 = Inl x"
         "exits_at p2 (k - 2) (if even (k - 2) then ''malloc failed'' else ''pthread_create failed'') x"
      by blast
    have "exits_at p (2 + (k - 2)) (if even (k - 2) then ''malloc failed'' else ''pthread_create failed'') x"
      by (rule exits_at_shift[OF x(2)]) (simp_all add: p2_def)
    moreover have "2 + (k - 2) = k" "even (k - 2) = even k" using 3 by simp_all
    ultimately show ?thesis using x(1) unfolding step td_def p2_def by simp
  qed
qed

lemma create_threads_ok:
  assumes n: "0 < n" and bound: "length aw + n \<le> INT_MAX + 1"
    and env: "\<forall>k<2 * n. env (calls p + k)"
  shows "create_threads l n env aw mode p =
           Some (Inr (map (share_td l n aw mode) [0..<n], p\<lparr>calls := calls p + 2 * n\<rparr>))"
proof (cases l)
  case Listing1
  have "map (share_td l n aw mode) [0..<n] = map (strided_td n aw mode) [0..<n]"
    by (simp add: share_td_def Listing1)
  then show ?thesis
    using threads_loop_v1_ok[OF n bound, of 0 env p mode "[]"] env
    by (simp add: create_threads_def create_threads_v1_def Listing1)
next
  case Listing2
  have "map (share_td l n aw mode) [0..<n] = map (block_td n aw mode) [0..<n]"
    by (simp add: share_td_def Listing2)
  then show ?thesis
    using threads_loop_v2_ok[of 0 n env p 0 aw mode "[]"] env n
    by (simp add: create_threads_def create_threads_v2_def Listing2 offset_def)
qed

lemma create_threads_fail:
  assumes n: "0 < n" and bound: "length aw + n \<le> INT_MAX + 1"
    and k: "k < 2 * n" "\<not> env (calls p + k)" "\<forall>j<k. env (calls p + j)"
  shows "\<exists>x. create_threads l n env aw mode p = Some (Inl x) \<and>
             exits_at p k (if even k then ''malloc failed'' else ''pthread_create failed'') x"
proof (cases l)
  case Listing1
  then show ?thesis
    using threads_loop_v1_fail[OF n bound, of k 0 env p mode "[]"] k
    by (simp add: create_threads_def create_threads_v1_def)
next
  case Listing2
  then show ?thesis
    using threads_loop_v2_fail[of k n 0 env p 0 aw mode "[]"] k n
    by (simp add: create_threads_def create_threads_v2_def offset_def)
qed

lemma create_threads_Inr:
  assumes n: "0 < n" and bound: "length aw + n \<le> INT_MAX + 1"
    and r: "create_threads l n env aw mode p = Some (Inr (tds, p'))"
  shows "tds = map (share_td l n aw mode) [0..<n]" "p' = p\<lparr>calls := calls p + 2 * n\<rparr>"
    "\<forall>k<2 * n. env (calls p + k)"
proof -
  have all: "\<forall>k<2 * n. env (calls p + k)"
  proof (rule ccontr)
    assume "\<not> (\<forall>k<2 * n. env (calls p + k))"
    from first_failure[OF this] obtain k where
      "k < 2 * n" "\<not> env (calls p + k)" "\<forall>j<k. env (calls p + j)" by blast
    from create_threads_fail[OF n bound this, of l mode] r show False by auto
  qed
  from create_threads_ok[OF n bound all, of l mode] r
  show "tds = map (share_td l n aw mode) [0..<n]" "p' = p\<lparr>calls := calls p + 2 * n\<rparr>"
    by simp_all
  from all show "\<forall>k<2 * n. env (calls p + k)" .
qed

lemma create_threads_partitioned:
  assumes "0 < n" "length aw + n \<le> INT_MAX + 1"
    and "create_threads l n env aw mode p = Some (Inr (tds, p'))"
  shows "partitioned n aw mode tds"
  using create_threads_Inr(1)[OF assms] by (auto simp: partitioned_def)

lemma partitioned_cases:
  assumes "partitioned n aw mode tds"
  obtains "tds = map (strided_td n aw mode) [0..<n]" | "tds = map (block_td n aw mode) [0..<n]"
proof -
  from assms obtain l where l: "tds = map (share_td l n aw mode) [0..<n]"
    by (auto simp: partitioned_def)
  show ?thesis
  proof (cases l)
    case Listing1
    with l have "tds = map (strided_td n aw mode) [0..<n]" by (simp add: share_td_def)
    then show ?thesis by (rule that(1))
  next
    case Listing2
    with l have "tds = map (block_td n aw mode) [0..<n]" by (simp add: share_td_def)
    then show ?thesis by (rule that(2))
  qed
qed

lemma offset_Suc:
  "t < n \<Longrightarrow> offset n m (Suc t) = offset n m t + quota n m t"
  by (auto simp: offset_def quota_div_mod min_def)

lemma sum_quota_upto:
  "k \<le> n \<Longrightarrow> sum_list (map (quota n m) [0..<k]) = offset n m k"
proof (induction k)
  case 0
  then show ?case by (simp add: offset_def)
next
  case (Suc k)
  then show ?case by (simp add: offset_Suc)
qed

lemma offset_full: "0 < n \<Longrightarrow> offset n m n = m"
  by (simp add: offset_def)

lemma sum_quota: "0 < n \<Longrightarrow> sum_list (map (quota n m) [0..<n]) = m"
  by (simp add: sum_quota_upto offset_full)












lemma wired_strided: "wired n mode (map (strided_td n aw mode) [0..<n])"
  by (simp add: wired_def strided_td_def)

lemma wired_block: "wired n mode (map (block_td n aw mode) [0..<n])"
  by (simp add: wired_def block_td_def)

lemma fair_strided: "shares_fair n (length aw) (map (strided_td n aw mode) [0..<n])"
  by (simp add: shares_fair_def strided_td_def)

lemma fair_block: "shares_fair n (length aw) (map (block_td n aw mode) [0..<n])"
  by (simp add: shares_fair_def block_td_def)

lemma share_sizes:
  assumes "0 < n"
  shows "length (map (share_td l n aw mode) [0..<n]) = n \<and>
         sum_list (map word_count (map (share_td l n aw mode) [0..<n])) = length aw \<and>
         (\<forall>i<n. word_count (map (share_td l n aw mode) [0..<n] ! i)
                  = length aw div n + (if i < length aw mod n then 1 else 0) \<and>
                length (words (map (share_td l n aw mode) [0..<n] ! i))
                  = word_count (map (share_td l n aw mode) [0..<n] ! i))"
proof -
  have "map word_count (map (share_td l n aw mode) [0..<n]) = map (quota n (length aw)) [0..<n]"
    by (cases l) (simp_all add: share_td_def strided_td_def block_td_def)
  then have "sum_list (map word_count (map (share_td l n aw mode) [0..<n])) = length aw"
    using assms by (simp only: sum_quota)
  then show ?thesis using assms
    by (cases l) (simp_all add: share_td_def strided_td_def block_td_def quota_div_mod)
qed

lemma hist_inv_start: "hist_inv n tds (start n ss)"
  by (simp add: hist_inv_def start_def holds_token_def)

lemma concat_replicate_pair:
  "concat (replicate k [a, b]) @ [a, b] = a # b # concat (replicate k [a, b])"
  by (induction k) simp_all

lemma hist_inv_step:
  assumes w: "wired n mode tds" and li: "local_inv n tds s"
    and inv: "hist_inv n tds s" and st: "step tds t s = Some s'"
  shows "hist_inv n tds s'"
proof -
  from li have len: "length (threads s) = n" "length tds = n"
    and L: "\<forall>u<n. local_ok (tds ! u) (threads s ! u)"
    by (simp_all add: local_inv_def)
  from step_SomeD[OF st] len have t: "t < n"
    and pt: "print_thread (tds ! t) t (fst (threads s ! t)) (snd (threads s ! t)) s = Some s'"
    by simp_all
  from w t have wt: "thread_id (tds ! t) = t" "sem_wait (tds ! t) = t"
     "sem_signal (tds ! t) = (t + 1) mod n" "is_chaos_mode (tds ! t) = mode"
     "length (words (tds ! t)) = word_count (tds ! t)"
    by (simp_all add: wired_def)
  obtain p i where th: "threads s ! t = (p, i)" by (cases "threads s ! t")
  from L t th have Lt: "local_ok (tds ! t) (p, i)" by auto
  from inv have O1: "\<forall>e\<in>set (stdout s). fst e < n"
    and C1: "\<forall>e\<in>set (sem_calls s). fst e < n"
    and O2: "\<forall>u<n. filter (\<lambda>e. fst e = u) (stdout s) =
        map (Pair u) (take (snd (threads s ! u) + (if fst (threads s ! u) = SemPost then 1 else 0))
                           (words (tds ! u)))"
    and C2: "\<forall>u<n. filter (\<lambda>e. fst e = u) (sem_calls s) =
        (if is_chaos_mode (tds ! u) then []
         else concat (replicate (snd (threads s ! u)) (pair_calls n u)) @
              (if holds_token (threads s ! u) then [(u, Wait u)] else []))"
    unfolding hist_inv_def by simp_all
  have nth': "\<And>x u. u < n \<Longrightarrow> (threads s)[t := x] ! u = (if u = t then x else threads s ! u)"
    using len by (simp add: nth_list_update)
  show ?thesis
  proof (cases p)
    case LoopTest
    define p' where "p' = (if i < word_count (tds ! t) then (if mode then Printf else SemWait) else Returned)"
    from pt th wt LoopTest have s': "s' = s\<lparr>threads := (threads s)[t := (p', i)]\<rparr>"
      by (auto simp: p'_def)
    have a: "holds_token (p', i) \<Longrightarrow> mode" "p' \<noteq> SemPost"
      by (auto simp: p'_def holds_token_def split: if_splits)
    show ?thesis unfolding hist_inv_def
      using O1 C1 O2 C2 th LoopTest wt a
      by (auto simp: s' nth' holds_token_def)
  next
    case SemWait
    from Lt SemWait wt have nm: "\<not> mode" by (auto simp: local_ok_def)
    from pt th wt SemWait obtain c where
      s': "s' = s\<lparr>threads := (threads s)[t := (Printf, i)],
                  semaphores := (semaphores s)[t := Some c],
                  sem_calls := sem_calls s @ [(t, Wait t)]\<rparr>"
      by (auto split: option.splits nat.splits)
    show ?thesis unfolding hist_inv_def
      using O1 C1 O2 C2 th SemWait wt nm t
      by (auto simp: s' nth' holds_token_def)
  next
    case Printf
    from Lt Printf wt have iw: "i < length (words (tds ! t))" by (auto simp: local_ok_def)
    from pt th wt Printf have s': "s' = s\<lparr>threads := (threads s)[t := (if mode then (LoopTest, i + 1) else (SemPost, i))],
             stdout := stdout s @ [(t, words (tds ! t) ! i)]\<rparr>"
      by auto
    have tk: "take (Suc i) (words (tds ! t)) = take i (words (tds ! t)) @ [words (tds ! t) ! i]"
      using iw by (rule take_Suc_conv_app_nth)
    show ?thesis unfolding hist_inv_def
      using O1 C1 O2 C2 th Printf wt t tk
      by (auto simp: s' nth' holds_token_def)
  next
    case SemPost
    from Lt SemPost wt have nm: "\<not> mode" by (auto simp: local_ok_def)
    from pt th wt SemPost obtain c where
      s': "s' = s\<lparr>threads := (threads s)[t := (LoopTest, i + 1)],
                  semaphores := (semaphores s)[(t + 1) mod n := Some c],
                  sem_calls := sem_calls s @ [(t, Post ((t + 1) mod n))]\<rparr>"
      by (auto split: option.splits)
    show ?thesis unfolding hist_inv_def
      using O1 C1 O2 C2 th SemPost wt nm t
      by (auto simp: s' nth' holds_token_def concat_replicate_pair pair_calls_def)
  next
    case Returned
    with pt th show ?thesis by simp
  qed
qed

lemma hist_inv_run:
  assumes w: "wired n mode tds"
  shows "local_inv n tds s \<Longrightarrow> hist_inv n tds s \<Longrightarrow> run tds sched s = Some s' \<Longrightarrow> hist_inv n tds s'"
proof (induction sched arbitrary: s)
  case Nil
  then show ?case by simp
next
  case (Cons t ts)
  from Cons.prems(3) obtain s1 where 1: "step tds t s = Some s1" and 2: "run tds ts s1 = Some s'"
    by (auto split: option.splits)
  from step_local[OF Cons.prems(1) 1] have "local_inv n tds s1" by simp
  from Cons.IH[OF this hist_inv_step[OF w Cons.prems(1,2) 1] 2] show ?case .
qed




lemma final_counts:
  assumes li: "local_inv n tds s" and r: "all_returned s" and t: "t < n"
  shows "threads s ! t = (Returned, word_count (tds ! t))"
proof -
  from r li t have "fst (threads s ! t) = Returned"
    by (simp add: all_returned_def list_all_length local_inv_def)
  moreover from li t have "local_ok (tds ! t) (threads s ! t)" by (simp add: local_inv_def)
  ultimately show ?thesis by (cases "threads s ! t") (simp add: local_ok_def)
qed

lemma sync_final_length:
  assumes n: "0 < n" and c: "shares_fair n m tds"
    and inv: "ring_inv n tds s" and li: "local_inv n tds s" and r: "all_returned s"
  shows "length (stdout s) = m"
proof -
  have "quota n (length (stdout s)) t = quota n m t" if "t < n" for t
  proof -
    from final_counts[OF li r that] have "threads s ! t = (Returned, word_count (tds ! t))" .
    moreover from inv that have "snd (threads s ! t) =
        quota n (length (stdout s)) t - (if fst (threads s ! t) = SemPost then 1 else 0)"
      by (simp add: ring_inv_def)
    ultimately show ?thesis using c that by (simp add: shares_fair_def)
  qed
  then show ?thesis using quota_inj[OF n, of "length (stdout s)" m] by simp
qed

lemma sync_length_le:
  assumes n: "0 < n" and c: "shares_fair n m tds" and inv: "ring_inv n tds s"
  shows "length (stdout s) \<le> m"
proof (rule ccontr)
  define K where "K = length (stdout s)"
  assume "\<not> length (stdout s) \<le> m"
  then have mK: "m < K" by (simp add: K_def)
  define j where "j = m mod n"
  have j: "j < n" using n by (simp add: j_def)
  from quota_less[OF n mK] have 1: "m div n < quota n K j" by (simp add: j_def)
  have 2: "quota n m j = m div n" unfolding j_def by (rule quota_self[OF n])
  from inv j have L: "local_ok (tds ! j) (threads s ! j)"
    and Q: "snd (threads s ! j) = quota n K j - (if fst (threads s ! j) = SemPost then 1 else 0)"
    by (simp_all add: ring_inv_def K_def)
  from c j 2 have wc: "word_count (tds ! j) = m div n" by (simp add: shares_fair_def)
  show False
  proof (cases "fst (threads s ! j) = SemPost")
    case True
    with L wc have "snd (threads s ! j) < m div n" by (simp add: local_ok_def)
    with Q True 1 show False by simp
  next
    case False
    with L wc have "snd (threads s ! j) \<le> m div n" by (simp add: local_ok_def)
    with Q False 1 show False by simp
  qed
qed

lemma partitioned_wired: "partitioned n aw mode tds \<Longrightarrow> wired n mode tds"
  by (erule partitioned_cases) (simp_all add: wired_strided wired_block)

lemma partitioned_fair: "partitioned n aw mode tds \<Longrightarrow> shares_fair n (length aw) tds"
  by (erule partitioned_cases) (simp_all add: fair_strided fair_block)


lemma partitioned_sum:
  assumes "0 < n" "partitioned n aw mode tds"
  shows "(\<Sum>t<n. word_count (tds ! t)) = length aw"
proof -
  from partitioned_fair[OF assms(2)] have "(\<Sum>t<n. word_count (tds ! t)) = (\<Sum>t<n. quota n (length aw) t)"
    by (simp add: shares_fair_def)
  also have "\<dots> = sum_list (map (quota n (length aw)) [0..<n])"
    by (simp add: interv_sum_list_conv_sum_set_nat atLeast0LessThan)
  finally show ?thesis using sum_quota[OF assms(1)] by simp
qed

lemma steps_left_start:
  assumes "wired n mode tds"
  shows "steps_left tds (start n ss) = (if mode then 2 else 4) * (\<Sum>t<n. word_count (tds ! t)) + n"
proof -
  from assms have len: "length tds = n" and m: "\<And>t. t < n \<Longrightarrow> is_chaos_mode (tds ! t) = mode"
    by (simp_all add: wired_def)
  define c :: nat where "c = (if mode then 2 else 4)"
  have "steps_left tds (start n ss) = (\<Sum>t<n. Suc (c * word_count (tds ! t)))"
    unfolding steps_left_def len
    by (rule sum.cong) (simp_all add: start_def remaining_def m c_def)
  also have "\<dots> = c * (\<Sum>t<n. word_count (tds ! t)) + n"
    by (simp add: sum_Suc sum_distrib_left)
  finally show ?thesis by (simp add: c_def)
qed

lemma steps_left_final:
  assumes "local_inv n tds s" "all_returned s"
  shows "steps_left tds s = 0"
proof -
  from assms(1) have len: "length tds = n" by (simp add: local_inv_def)
  show ?thesis unfolding steps_left_def len
    using final_counts[OF assms] by (simp add: remaining_def)
qed

lemma sync_reach:
  assumes n: "0 < n" and w: "wired n False tds"
    and r: "run tds sched (start n (ring n 0)) = Some s"
  shows "ring_inv n tds s" "local_inv n tds s" "hist_inv n tds s"
    "steps_left tds (start n (ring n 0)) = length sched + steps_left tds s"
proof -
  from w have len: "length tds = n" by (simp add: wired_def)
  show "ring_inv n tds s" by (rule ring_inv_run[OF n w ring_inv_start[OF n] r])
  from run_local[OF local_inv_start[OF len] r]
  show "local_inv n tds s" "steps_left tds (start n (ring n 0)) = length sched + steps_left tds s"
    by simp_all
  show "hist_inv n tds s" by (rule hist_inv_run[OF w local_inv_start[OF len] hist_inv_start r])
qed

lemma any_reach:
  assumes w: "wired n mode tds"
    and r: "run tds sched (start n ss) = Some s"
  shows "local_inv n tds s" "hist_inv n tds s"
    "steps_left tds (start n ss) = length sched + steps_left tds s"
proof -
  from w have len: "length tds = n" by (simp add: wired_def)
  from run_local[OF local_inv_start[OF len] r]
  show "local_inv n tds s" "steps_left tds (start n ss) = length sched + steps_left tds s"
    by simp_all
  show "hist_inv n tds s" by (rule hist_inv_run[OF w local_inv_start[OF len] hist_inv_start r])
qed

lemma run_extend:
  assumes "run tds sched s0 = Some s" "run tds sched' s = Some s'"
  shows "run tds (sched @ sched') s0 = Some s'"
  using assms by (simp add: run_append)

lemma fold_max_ge: "a \<le> fold max xs (a::nat)"
  by (induction xs arbitrary: a) (auto intro: order_trans[OF max.cobounded2])

lemma fold_max_mono: "a \<le> b \<Longrightarrow> fold max xs (a::nat) \<le> fold max xs b"
  by (induction xs arbitrary: a b) (auto simp: max.coboundedI2 intro!: max.mono)

lemma nth_le_fold_max: "t < length xs \<Longrightarrow> xs ! t \<le> fold max xs (a::nat)"
proof (induction xs arbitrary: t a)
  case Nil
  then show ?case by simp
next
  case (Cons x xs)
  show ?case
  proof (cases t)
    case 0
    have "x \<le> max x a" by simp
    also have "\<dots> \<le> fold max xs (max x a)" by (rule fold_max_ge)
    finally show ?thesis using 0 by simp
  next
    case (Suc u)
    with Cons show ?thesis by simp
  qed
qed

lemma map_mod_block:
  "m \<le> n \<Longrightarrow> map (\<lambda>k. k mod n) [d * n..<d * n + m] = [0..<m]"
  by (auto simp: list_eq_iff_nth_eq)

lemma concat_replicate_snoc: "concat (replicate k xs) @ xs = concat (replicate (Suc k) xs)"
  by (induction k) simp_all

lemma map_mod_full:
  "map (\<lambda>k. k mod n) [0..<d * n] = concat (replicate d [0..<n])"
proof (induction d)
  case 0
  then show ?case by simp
next
  case (Suc d)
  have "[0..<Suc d * n] = [0..<d * n] @ [d * n..<d * n + n]"
    using upt_add_eq_append[of 0 "d * n" n] by (simp add: add.commute)
  then have "map (\<lambda>k. k mod n) [0..<Suc d * n]
      = concat (replicate d [0..<n]) @ [0..<n]"
    using Suc map_mod_block[of n n d] by simp
  then show ?case by (simp only: concat_replicate_snoc)
qed

lemma map_mod_split:
  assumes "m \<le> n"
  shows "map (\<lambda>k. k mod n) [0..<d * n + m] = concat (replicate d [0..<n]) @ [0..<m]"
proof -
  have "[0..<d * n + m] = [0..<d * n] @ [d * n..<d * n + m]"
    by (rule upt_add_eq_append) simp
  then show ?thesis using assms by (simp add: map_mod_full map_mod_block)
qed

lemma map_mod_upt:
  assumes "0 < n"
  shows "map (\<lambda>k. k mod n) [0..<K] = concat (replicate (K div n) [0..<n]) @ [0..<K mod n]"
  using map_mod_split[of "K mod n" n "K div n"] assms by simp

lemma map_const_upt:
  "(\<And>r. r < d \<Longrightarrow> f r = x) \<Longrightarrow> map f [0..<d] = replicate d x"
  by (induction d) (simp_all add: replicate_append_same)

lemma rotation_prefix:
  assumes n: "0 < n" and len: "length cs = n"
    and ok: "\<forall>k<K. k div n < cs ! (k mod n)"
  shows "take K (rotation cs) = map (\<lambda>k. k mod n) [0..<K]"
proof -
  define D m B where "D = K div n" and "m = K mod n" and "B = fold max cs 0"
  define R where "R = (\<lambda>r. filter (\<lambda>t. r < cs ! t) [0..<n])"
  have K: "K = D * n + m" and m: "m < n" using n by (simp_all add: D_def m_def)
  have rot: "rotation cs = concat (map R [0..<B])"
    by (simp add: rotation_def R_def B_def len)
  have full: "r < cs ! t" if "r < D" "t < n" for r t
  proof -
    have "r * n + t < D * n"
    proof -
      have "r * n + t < r * n + n" using that by simp
      also have "\<dots> = Suc r * n" by simp
      also have "\<dots> \<le> D * n" using that by (intro mult_le_mono1) simp
      finally show ?thesis .
    qed
    then have "r * n + t < K" using K by simp
    with ok have "(r * n + t) div n < cs ! ((r * n + t) mod n)" by blast
    then show ?thesis using that by simp
  qed
  have part: "D < cs ! t" if "t < m" for t
  proof -
    have "D * n + t < K" using K that by simp
    with ok have "(D * n + t) div n < cs ! ((D * n + t) mod n)" by blast
    then show ?thesis using that m by simp
  qed
  have RD: "R r = [0..<n]" if "r < D" for r
    unfolding R_def using full[OF that] by (simp add: filter_id_conv)
  then have A: "concat (map R [0..<D]) = concat (replicate D [0..<n])"
    by (simp add: map_const_upt)
  have lenA: "length (concat (replicate D [0..<n])) = D * n"
    by (induction D) simp_all
  have bound: "cs ! t \<le> B" if "t < n" for t
    unfolding B_def using nth_le_fold_max[of t cs 0] that len by simp
  show ?thesis
  proof (cases "m = 0")
    case True
    have DB: "D \<le> B"
    proof (cases D)
      case 0
      then show ?thesis by simp
    next
      case (Suc d)
      then have "d < cs ! 0" using full[of d 0] n by simp
      with bound[OF n] Suc show ?thesis by simp
    qed
    then have "[0..<B] = [0..<D] @ [D..<B]"
      using upt_add_eq_append[of 0 D "B - D"] by simp
    then have "rotation cs = concat (replicate D [0..<n]) @ concat (map R [D..<B])"
      unfolding rot using A by simp
    then have "take K (rotation cs) = concat (replicate D [0..<n])"
      using lenA K True by simp
    then show ?thesis using True map_mod_upt[OF n, of K] by (simp add: D_def m_def)
  next
    case False
    then have "0 < m" by simp
    from part[OF this] bound[OF n] have DB: "D < B" by simp
    then have "[0..<B] = [0..<D] @ D # [Suc D..<B]"
      using upt_add_eq_append[of 0 D "B - D"] by (simp add: upt_conv_Cons)
    moreover have "R D = [0..<m] @ filter (\<lambda>t. D < cs ! t) [m..<n]"
    proof -
      have "[0..<n] = [0..<m] @ [m..<n]"
        using upt_add_eq_append[of 0 m "n - m"] m by simp
      then have "R D = filter (\<lambda>t. D < cs ! t) [0..<m] @ filter (\<lambda>t. D < cs ! t) [m..<n]"
        by (simp add: R_def)
      moreover have "filter (\<lambda>t. D < cs ! t) [0..<m] = [0..<m]"
        using part by (simp add: filter_id_conv)
      ultimately show ?thesis by simp
    qed
    ultimately have "rotation cs = (concat (replicate D [0..<n]) @ [0..<m])
        @ (filter (\<lambda>t. D < cs ! t) [m..<n] @ concat (map R [Suc D..<B]))"
      unfolding rot using A by simp
    moreover have "length (concat (replicate D [0..<n]) @ [0..<m]) = K"
      using lenA K by simp
    ultimately have "take K (rotation cs) = concat (replicate D [0..<n]) @ [0..<m]"
      by (metis append_eq_conv_conj)
    then show ?thesis using map_mod_upt[OF n, of K] by (simp add: D_def m_def)
  qed
qed

lemma sync_quota_le:
  assumes inv: "ring_inv n tds s" and t: "t < n"
  shows "quota n (length (stdout s)) t \<le> word_count (tds ! t)"
proof -
  from inv t have L: "local_ok (tds ! t) (threads s ! t)"
    and Q: "snd (threads s ! t) = quota n (length (stdout s)) t
              - (if fst (threads s ! t) = SemPost then 1 else 0)"
    by (simp_all add: ring_inv_def)
  show ?thesis
  proof (cases "fst (threads s ! t) = SemPost")
    case True
    with L have "snd (threads s ! t) < word_count (tds ! t)" by (simp add: local_ok_def)
    with Q True show ?thesis by simp
  next
    case False
    with L Q show ?thesis by (simp add: local_ok_def)
  qed
qed

lemma sync_rotation_skip:
  assumes n: "0 < n" and w: "wired n False tds" and inv: "ring_inv n tds s"
  shows "map fst (stdout s) = take (length (stdout s)) (rotation (map word_count tds))"
proof -
  define K where "K = length (stdout s)"
  from w have len: "length tds = n" by (simp add: wired_def)
  have ok: "\<forall>k<K. k div n < map word_count tds ! (k mod n)"
  proof (intro allI impI)
    fix k assume "k < K"
    from quota_less[OF n this] have "k div n < quota n K (k mod n)" .
    also have "\<dots> \<le> word_count (tds ! (k mod n))"
      unfolding K_def using n by (intro sync_quota_le[OF inv]) simp
    finally show "k div n < map word_count tds ! (k mod n)" using len n by simp
  qed
  from inv have "stdout s = map (\<lambda>k. (k mod n, words (tds ! (k mod n)) ! (k div n))) [0..<K]"
    by (simp add: ring_inv_def K_def)
  then have "map fst (stdout s) = map (\<lambda>k. k mod n) [0..<K]"
    by (simp add: comp_def)
  also have "\<dots> = take K (rotation (map word_count tds))"
    using rotation_prefix[OF n _ ok] len by simp
  finally show ?thesis by (simp add: K_def)
qed

text \<open>
  Claim C1.  Synchronized mode, \<open>n \<ge> 1\<close> workers wired as \<^verbatim>\<open>print_paragraph\<close> wires them
  (worker \<open>i\<close> waits on semaphore \<open>i\<close> and posts semaphore \<open>(i + 1) mod n\<close>), with the
  thread data that either listing has built when all its allocations and thread
  creations succeeded, or with any share sizes at all.  In every state that any schedule
  reaches from the initial ring, the ids of the workers in the order of their
  \<^verbatim>\<open>printf\<close> calls are \<open>0, 1, \<dots>, n - 1, 0, 1, \<dots>\<close> cut to the number of calls made; this is
  also the rotation that skips exhausted workers, cut to the same length; and at most
  one worker is at its \<^verbatim>\<open>printf\<close>.
\<close>

theorem sync_rotation:
  assumes "0 < n"
    and "(length all_words + n \<le> INT_MAX + 1 \<and>
          create_threads l n env all_words False p = Some (Inr (tds, p'))) \<or>
         wired n False tds"
    and "run tds sched (start n (ring n 0)) = Some s"
  shows "map fst (stdout s) = map (\<lambda>k. k mod n) [0..<length (stdout s)] \<and>
         map fst (stdout s) = take (length (stdout s)) (rotation (map word_count tds)) \<and>
         (\<forall>t<n. \<forall>u<n. fst (threads s ! t) = Printf \<and> fst (threads s ! u) = Printf \<longrightarrow> t = u)"
proof -
  from assms(1,2) have w: "wired n False tds"
    by (auto dest: create_threads_partitioned partitioned_wired)
  from sync_reach(1)[OF assms(1) w assms(3)] have inv: "ring_inv n tds s" .
  define K where "K = length (stdout s)"
  from inv have "stdout s = map (\<lambda>k. (k mod n, words (tds ! (k mod n)) ! (k div n))) [0..<K]"
    by (simp add: ring_inv_def K_def)
  then have "map fst (stdout s) = map (\<lambda>k. k mod n) [0..<K]"
    by (simp add: comp_def)
  then have 1: "map fst (stdout s) = map (\<lambda>k. k mod n) [0..<length (stdout s)]"
    by (simp only: K_def)
  from inv have "\<forall>t<n. \<forall>u<n. holds_token (threads s ! t) \<longrightarrow> holds_token (threads s ! u) \<longrightarrow> t = u"
    by (simp add: ring_inv_def)
  then have 3: "\<forall>t<n. \<forall>u<n. fst (threads s ! t) = Printf \<and> fst (threads s ! u) = Printf \<longrightarrow> t = u"
    by (simp add: holds_token_def)
  from 1 sync_rotation_skip[OF assms(1) w inv] 3 show ?thesis by blast
qed

theorem sync_rotation_witness:
  "\<exists>tds p' s.
     create_threads Listing2 2 (\<lambda>k. True) [''a'', ''b'', ''c''] False
       \<lparr>sems = ring 2 0, out = [], stderr = [], calls = 0\<rparr> = Some (Inr (tds, p')) \<and>
     run tds [0, 1, 0, 0, 0, 1, 1] (start 2 (ring 2 0)) = Some s \<and>
     map fst (stdout s) = [0, 1] \<and> threads s = [(LoopTest, 1), (SemPost, 0)] \<and>
     take 2 (rotation (map word_count tds)) = [0, 1]"
proof -
  define p where "p = \<lparr>sems = ring 2 0, out = [], stderr = [], calls = 0\<rparr>"
  define tds where "tds = [\<lparr>thread_id = 0, words = [''a'', ''b''], word_count = 2, sem_wait = 0,
      sem_signal = 1, is_chaos_mode = False\<rparr>,
   \<lparr>thread_id = 1, words = [''c''], word_count = 1, sem_wait = 1,
      sem_signal = 0, is_chaos_mode = False\<rparr>]"
  define s where "s = \<lparr>threads = [(LoopTest, 1), (SemPost, 0)], semaphores = [Some 0, Some 0],
     stdout = [(0, ''a''), (1, ''c'')], sem_calls = [(0, Wait 0), (0, Post 1), (1, Wait 1)]\<rparr>"
  have c: "create_threads Listing2 2 (\<lambda>k. True) [''a'', ''b'', ''c''] False p
      = Some (Inr (tds, p\<lparr>calls := 4\<rparr>))"
    unfolding p_def tds_def by code_simp
  have r: "run tds [0, 1, 0, 0, 0, 1, 1] (start 2 (ring 2 0)) = Some s"
    unfolding tds_def s_def by code_simp
  have b: "length [''a'', ''b'', ''c''] + 2 \<le> INT_MAX + 1" by (simp add: INT_MAX_def)
  have h: "(length [''a'', ''b'', ''c''] + 2 \<le> INT_MAX + 1 \<and>
          create_threads Listing2 2 (\<lambda>k. True) [''a'', ''b'', ''c''] False p = Some (Inr (tds, p\<lparr>calls := 4\<rparr>))) \<or>
         wired 2 False tds"
    using b c by blast
  have n2: "(0::nat) < 2" by simp
  from sync_rotation[OF n2 h r] have "map fst (stdout s) = take (length (stdout s)) (rotation (map word_count tds))"
    by blast
  moreover have "map fst (stdout s) = [0, 1]" "length (stdout s) = 2" by (simp_all add: s_def)
  ultimately have "take 2 (rotation (map word_count tds)) = [0, 1]" by simp
  with c r show ?thesis unfolding p_def
    by (intro exI[of _ tds] exI[of _ "p\<lparr>calls := 4\<rparr>"] exI[of _ s]) (simp add: s_def p_def)
qed

lemma length_concat_pairs: "length (concat (replicate k [a, b])) = 2 * k"
  by (induction k) simp_all

lemma count_in_pairs:
  "\<not> P a \<Longrightarrow> P b \<Longrightarrow> length (filter P (concat (replicate k [a, b]))) = k"
  by (induction k) simp_all

lemma pairs_prefix:
  assumes "i \<le> wc"
  shows "concat (replicate i [a, b]) = take (2 * i) (concat (replicate wc [a, b]))"
proof -
  define d where "d = wc - i"
  from assms have "wc = i + d" by (simp add: d_def)
  then show ?thesis by (simp add: replicate_add length_concat_pairs)
qed

lemma pairs_prefix_half:
  assumes "i < wc"
  shows "concat (replicate i [a, b]) @ [a] = take (2 * i + 1) (concat (replicate wc [a, b]))"
proof -
  define d where "d = wc - Suc i"
  from assms have wc: "wc = i + Suc d" by (simp add: d_def)
  have "concat (replicate wc [a, b])
      = concat (replicate i [a, b]) @ (a # b # concat (replicate d [a, b]))"
    unfolding wc replicate_add by simp
  then show ?thesis by (simp add: length_concat_pairs)
qed

lemma calls_prefix:
  assumes w: "wired n mode tds" and li: "local_inv n tds s" and h: "hist_inv n tds s" and t: "t < n"
  shows "\<exists>k \<le> 2 * word_count (tds ! t). filter (\<lambda>e. fst e = t) (sem_calls s)
           = take k (concat (replicate (word_count (tds ! t)) (pair_calls n t)))"
proof -
  define i where "i = snd (threads s ! t)"
  define wc where "wc = word_count (tds ! t)"
  from li t have L: "local_ok (tds ! t) (threads s ! t)" by (simp add: local_inv_def)
  from h t have C: "filter (\<lambda>e. fst e = t) (sem_calls s) =
        (if is_chaos_mode (tds ! t) then []
         else concat (replicate i (pair_calls n t)) @
              (if holds_token (threads s ! t) then [(t, Wait t)] else []))"
    by (simp add: hist_inv_def i_def)
  from L have le: "i \<le> wc" by (simp add: local_ok_def i_def wc_def)
  show ?thesis
  proof (cases "is_chaos_mode (tds ! t)")
    case True
    with C have "filter (\<lambda>e. fst e = t) (sem_calls s) = take 0 (concat (replicate wc (pair_calls n t)))"
      by simp
    then show ?thesis unfolding wc_def by blast
  next
    case nc: False
    show ?thesis
    proof (cases "holds_token (threads s ! t)")
      case True
      with L have lt: "i < wc" by (auto simp: local_ok_def holds_token_def i_def wc_def)
      from C nc True have "filter (\<lambda>e. fst e = t) (sem_calls s)
          = take (2 * i + 1) (concat (replicate wc (pair_calls n t)))"
        using pairs_prefix_half[OF lt] by (simp add: pair_calls_def)
      moreover have "2 * i + 1 \<le> 2 * wc" using lt by simp
      ultimately show ?thesis unfolding wc_def by blast
    next
      case False
      from C nc False have "filter (\<lambda>e. fst e = t) (sem_calls s)
          = take (2 * i) (concat (replicate wc (pair_calls n t)))"
        using pairs_prefix[OF le] by (simp add: pair_calls_def)
      moreover have "2 * i \<le> 2 * wc" using le by simp
      ultimately show ?thesis unfolding wc_def by blast
    qed
  qed
qed

lemma calls_final:
  assumes w: "wired n False tds" and li: "local_inv n tds s" and h: "hist_inv n tds s"
    and r: "all_returned s" and t: "t < n"
  shows "filter (\<lambda>e. fst e = t) (sem_calls s)
           = concat (replicate (word_count (tds ! t)) (pair_calls n t))"
proof -
  from final_counts[OF li r t] have th: "threads s ! t = (Returned, word_count (tds ! t))" .
  from w t have "\<not> is_chaos_mode (tds ! t)" by (simp add: wired_def)
  with h t th show ?thesis by (simp add: hist_inv_def holds_token_def)
qed

lemma all_filters_empty:
  assumes "\<forall>e\<in>set xs. fst e < n" "\<forall>t<n. filter (\<lambda>e. fst e = t) xs = []"
  shows "xs = []"
proof (rule ccontr)
  assume "xs \<noteq> []"
  then obtain e where e: "e \<in> set xs" by (cases xs) auto
  with assms(1) have "fst e < n" by blast
  with assms(2) have "filter (\<lambda>x. fst x = fst e) xs = []" by blast
  with e show False by (auto simp: filter_empty_conv)
qed

lemma calls_chaos:
  assumes w: "wired n True tds" and h: "hist_inv n tds s"
  shows "sem_calls s = []"
proof (rule all_filters_empty)
  from h show "\<forall>e\<in>set (sem_calls s). fst e < n" by (simp add: hist_inv_def)
  from w have "\<And>t. t < n \<Longrightarrow> is_chaos_mode (tds ! t)" by (simp add: wired_def)
  with h show "\<forall>t<n. filter (\<lambda>e. fst e = t) (sem_calls s) = []" by (simp add: hist_inv_def)
qed

lemma posts_final:
  assumes w: "wired n False tds" and li: "local_inv n tds s" and h: "hist_inv n tds s"
    and r: "all_returned s" and t: "t < n"
  shows "length (filter (\<lambda>e. e = (t, Post ((t + 1) mod n))) (sem_calls s)) = word_count (tds ! t)"
proof -
  have "(\<lambda>e. fst e = t \<and> e = (t, Post ((t + 1) mod n))) = (\<lambda>e. e = (t, Post ((t + 1) mod n)))"
    by auto
  then have "filter (\<lambda>e. e = (t, Post ((t + 1) mod n))) (sem_calls s)
      = filter (\<lambda>e. e = (t, Post ((t + 1) mod n))) (filter (\<lambda>e. fst e = t) (sem_calls s))"
    by simp
  then show ?thesis
    unfolding calls_final[OF w li h r t] pair_calls_def by (simp add: count_in_pairs)
qed

lemma ring_eq_iff: "0 < n \<Longrightarrow> j < n \<Longrightarrow> ring n j = ring n 0 \<longleftrightarrow> j = 0"
proof
  assume n: "0 < n" "j < n" and eq: "ring n j = ring n 0"
  then have "ring n j ! j = ring n 0 ! j" by simp
  then show "j = 0" using n by (simp add: ring_def nth_list_update split: if_splits)
qed simp

lemma completes_any:
  assumes n: "0 < n" and p: "partitioned n aw mode tds"
    and r: "run tds sched (start n (ring n 0)) = Some s"
  shows "\<exists>sched' s'. run tds (sched @ sched') (start n (ring n 0)) = Some s' \<and> all_returned s'"
proof -
  from partitioned_wired[OF p] have w: "wired n mode tds" .
  have "\<exists>sched' s'. run tds sched' s = Some s' \<and> all_returned s'"
  proof (cases mode)
    case True
    with w have w': "wired n True tds" by simp
    from chaos_completes[OF w' any_reach(1)[OF w r]] show ?thesis .
  next
    case False
    with w have w': "wired n False tds" by simp
    from sync_completes[OF n w' partitioned_fair[OF p] sync_reach(1)[OF n w' r]] show ?thesis .
  qed
  then obtain sched' s' where "run tds sched' s = Some s'" "all_returned s'" by blast
  with run_extend[OF r] show ?thesis by blast
qed

lemma ring_no_None: "None \<notin> set (ring n j)"
proof
  assume "None \<in> set (ring n j)"
  then have "None \<in> insert (Some 1) (set (replicate n (Some (0::nat))))"
    unfolding ring_def using set_update_subset_insert by fastforce
  then show False by simp
qed

lemma print_paragraph_joins:
  assumes c: "create_threads l n env aw mode p = Some (Inr (tds, p'))"
    and p': "p' = p\<lparr>calls := calls p + k\<rparr>"
    and ring: "sems p = ring n 0"
    and r: "run tds sched (start n (ring n 0)) = Some s" and a: "all_returned s"
  shows "print_paragraph l n env aw mode sched p
           = Some (Inr (p\<lparr>calls := calls p + k, sems := semaphores s, out := out p @ stdout s\<rparr>))"
proof -
  have j: "join_threads n mode tds sched p'
             = Inr (p\<lparr>calls := calls p + k, sems := semaphores s, out := out p @ stdout s\<rparr>)"
    using r a ring ring_no_None[of n 0] by (simp add: join_threads_def p')
  show ?thesis
  proof (cases l)
    case Listing1
    with c j show ?thesis
      by (simp add: print_paragraph_def print_paragraph_v1_def create_threads_def)
  next
    case Listing2
    with c j show ?thesis
      by (simp add: print_paragraph_def print_paragraph_v2_def create_threads_def)
  qed
qed

text \<open>
  Claim C6, as stated, fails on the code for \<open>M = 0\<close>: the first thing a synchronized run
  does is \<^verbatim>\<open>malloc(0)\<close> for the empty share of worker 0, and when that returns \<^verbatim>\<open>NULL\<close>
  \<^verbatim>\<open>print_paragraph\<close> prints \<^verbatim>\<open>malloc failed\<close> and exits with \<open>EXIT_FAILURE\<close>: no worker is
  created, none returns, and the joins are never reached, whatever the schedule.
\<close>

theorem sync_run_exits_counterexample:
  "\<forall>sched.
     print_paragraph Listing1 5 (\<lambda>k. k \<noteq> 0) [] False sched
         \<lparr>sems = ring 5 0, out = [], stderr = [], calls = 0\<rparr>
       = Some (Inl (Exit EXIT_FAILURE,
                    \<lparr>sems = ring 5 0, out = [], stderr = [''malloc failed''], calls = 1\<rparr>)) \<and>
     print_paragraph Listing2 5 (\<lambda>k. k \<noteq> 0) [] False sched
         \<lparr>sems = ring 5 0, out = [], stderr = [], calls = 0\<rparr>
       = Some (Inl (Exit EXIT_FAILURE,
                    \<lparr>sems = ring 5 0, out = [], stderr = [''malloc failed''], calls = 1\<rparr>))"
proof -
  have 1: "create_threads Listing1 5 (\<lambda>k. k \<noteq> 0) [] False \<lparr>sems = ring 5 0, out = [], stderr = [], calls = 0\<rparr>
     = Some (Inl (Exit EXIT_FAILURE,
                  \<lparr>sems = ring 5 0, out = [], stderr = [''malloc failed''], calls = 1\<rparr>))"
    by code_simp
  have 2: "create_threads Listing2 5 (\<lambda>k. k \<noteq> 0) [] False \<lparr>sems = ring 5 0, out = [], stderr = [], calls = 0\<rparr>
     = Some (Inl (Exit EXIT_FAILURE,
                  \<lparr>sems = ring 5 0, out = [], stderr = [''malloc failed''], calls = 1\<rparr>))"
    by code_simp
  from 1 2 show ?thesis
    by (simp add: print_paragraph_def print_paragraph_v1_def print_paragraph_v2_def create_threads_def)
qed

text \<open>
  Claim C6, amended.  Synchronized mode, \<open>n \<ge> 1\<close> workers and any word list of \<open>M \<ge> 0\<close>
  words with \<open>M + n \<le> 2\<^sup>3\<^sup>1\<close> (so that the \<^verbatim>\<open>int\<close> counters do not overflow), once either
  listing has created its workers, that is when all its calls of \<^verbatim>\<open>malloc\<close> (also
  \<^verbatim>\<open>malloc(0)\<close> for an empty share) and of \<^verbatim>\<open>pthread_create\<close> have succeeded, from the
  initial ring.  Every schedule makes at most \<open>4 * M + n\<close> steps.  In every state it
  reaches either all workers have returned or some worker can step: there is no deadlock,
  and the schedule extends to one after which all workers have returned.  When all have
  returned, exactly \<open>4 * M + n\<close> steps were made, every worker has processed all the items
  of its share, it has posted its next semaphore exactly once per item, and the joins of
  \<^verbatim>\<open>print_paragraph\<close> complete: it returns, with the output of the workers appended.
\<close>

theorem sync_terminates:
  assumes "0 < n"
    and "length all_words + n \<le> INT_MAX + 1"
    and "create_threads l n env all_words False p = Some (Inr (tds, p'))"
    and "run tds sched (start n (ring n 0)) = Some s"
  shows "length sched \<le> 4 * length all_words + n \<and>
         (all_returned s \<or> (\<exists>t<n. step tds t s \<noteq> None)) \<and>
         (\<exists>sched' s'. run tds (sched @ sched') (start n (ring n 0)) = Some s' \<and> all_returned s') \<and>
         (all_returned s \<longrightarrow>
            length sched = 4 * length all_words + n \<and>
            (\<forall>t<n. threads s ! t = (Returned, word_count (tds ! t)) \<and>
                   length (filter (\<lambda>e. e = (t, Post ((t + 1) mod n))) (sem_calls s))
                     = word_count (tds ! t)) \<and>
            (sems p = ring n 0 \<longrightarrow>
               (\<exists>p''. print_paragraph l n env all_words False sched p = Some (Inr p'') \<and>
                      out p'' = out p @ stdout s)))"
proof -
  note pt = create_threads_partitioned[OF assms(1,2,3)]
  note w = partitioned_wired[OF pt]
  note f = partitioned_fair[OF pt]
  note reach = sync_reach[OF assms(1) w assms(4)]
  have total: "length sched + steps_left tds s = 4 * length all_words + n"
    using reach(4) steps_left_start[OF w, of "ring n 0"] partitioned_sum[OF assms(1) pt] by simp
  then have 1: "length sched \<le> 4 * length all_words + n" by simp
  have 2: "all_returned s \<or> (\<exists>t<n. step tds t s \<noteq> None)"
    using ring_progress[OF assms(1) w f reach(1)] by blast
  note 3 = completes_any[OF assms(1) pt assms(4)]
  have 4: "length sched = 4 * length all_words + n \<and>
            (\<forall>t<n. threads s ! t = (Returned, word_count (tds ! t)) \<and>
                   length (filter (\<lambda>e. e = (t, Post ((t + 1) mod n))) (sem_calls s))
                     = word_count (tds ! t))" if r: "all_returned s"
    using total steps_left_final[OF reach(2) r] final_counts[OF reach(2) r]
      posts_final[OF w reach(2,3) r] by simp
  have 5: "\<exists>p''. print_paragraph l n env all_words False sched p = Some (Inr p'') \<and>
                      out p'' = out p @ stdout s" if r: "all_returned s" and ring: "sems p = ring n 0"
    using print_paragraph_joins[OF assms(3) create_threads_Inr(2)[OF assms(1,2,3)] ring assms(4) r]
    by simp
  from 1 2 3 4 5 show ?thesis by blast
qed

theorem sync_terminates_witness:
  "\<exists>tds p' s.
     (0::nat) < 2 \<and> length [''a'', ''b'', ''c''] + 2 \<le> INT_MAX + 1 \<and>
     create_threads Listing2 2 (\<lambda>k. True) [''a'', ''b'', ''c''] False
       \<lparr>sems = ring 2 0, out = [], stderr = [], calls = 0\<rparr> = Some (Inr (tds, p')) \<and>
     run tds [0, 0, 0, 0, 1, 1, 1, 1, 0, 0, 0, 0, 0, 1] (start 2 (ring 2 0)) = Some s \<and>
     all_returned s \<and>
     length [0, 0, 0, 0, 1, 1, 1, 1, 0, 0, 0, 0, 0, 1::nat] = 4 * length [''a'', ''b'', ''c''] + 2 \<and>
     threads s = [(Returned, 2), (Returned, 1)] \<and>
     (\<exists>p''. print_paragraph Listing2 2 (\<lambda>k. True) [''a'', ''b'', ''c''] False
               [0, 0, 0, 0, 1, 1, 1, 1, 0, 0, 0, 0, 0, 1]
               \<lparr>sems = ring 2 0, out = [], stderr = [], calls = 0\<rparr> = Some (Inr p'') \<and>
            out p'' = [(0, ''a''), (1, ''c''), (0, ''b'')])"
proof -
  define p where "p = \<lparr>sems = ring 2 0, out = [], stderr = [], calls = 0\<rparr>"
  define tds where "tds = [\<lparr>thread_id = 0, words = [''a'', ''b''], word_count = 2, sem_wait = 0,
      sem_signal = 1, is_chaos_mode = False\<rparr>,
   \<lparr>thread_id = 1, words = [''c''], word_count = 1, sem_wait = 1,
      sem_signal = 0, is_chaos_mode = False\<rparr>]"
  define s where "s = \<lparr>threads = [(Returned, 2), (Returned, 1)], semaphores = [Some 0, Some 1],
     stdout = [(0, ''a''), (1, ''c''), (0, ''b'')],
     sem_calls = [(0, Wait 0), (0, Post 1), (1, Wait 1), (1, Post 0), (0, Wait 0), (0, Post 1)]\<rparr>"
  have n2: "(0::nat) < 2" by simp
  have b: "length [''a'', ''b'', ''c''] + 2 \<le> INT_MAX + 1" by (simp add: INT_MAX_def)
  have c: "create_threads Listing2 2 (\<lambda>k. True) [''a'', ''b'', ''c''] False p
      = Some (Inr (tds, p\<lparr>calls := 4\<rparr>))"
    unfolding p_def tds_def by code_simp
  have r: "run tds [0, 0, 0, 0, 1, 1, 1, 1, 0, 0, 0, 0, 0, 1] (start 2 (ring 2 0)) = Some s"
    unfolding tds_def s_def by code_simp
  have a: "all_returned s" by (simp add: s_def all_returned_def)
  have ring: "sems p = ring 2 0" by (simp add: p_def)
  have o: "out p = []" "stdout s = [(0, ''a''), (1, ''c''), (0, ''b'')]" by (simp_all add: p_def s_def)
  from sync_terminates[OF n2 b c r] a
  have l: "length [0, 0, 0, 0, 1, 1, 1, 1, 0, 0, 0, 0, 0, 1::nat] = 4 * length [''a'', ''b'', ''c''] + 2"
    by blast
  from sync_terminates[OF n2 b c r] a ring
  have "\<exists>p''. print_paragraph Listing2 2 (\<lambda>k. True) [''a'', ''b'', ''c''] False
               [0, 0, 0, 0, 1, 1, 1, 1, 0, 0, 0, 0, 0, 1] p = Some (Inr p'') \<and>
            out p'' = out p @ stdout s"
    by blast
  then have pp: "\<exists>p''. print_paragraph Listing2 2 (\<lambda>k. True) [''a'', ''b'', ''c''] False
               [0, 0, 0, 0, 1, 1, 1, 1, 0, 0, 0, 0, 0, 1] p = Some (Inr p'') \<and>
            out p'' = [(0, ''a''), (1, ''c''), (0, ''b'')]"
    by (simp only: o append_Nil)
  have t: "threads s = [(Returned, 2), (Returned, 1)]" by (simp add: s_def)
  from n2 b c r a l t pp
  have "(0::nat) < 2 \<and> length [''a'', ''b'', ''c''] + 2 \<le> INT_MAX + 1 \<and>
     create_threads Listing2 2 (\<lambda>k. True) [''a'', ''b'', ''c''] False p
        = Some (Inr (tds, p\<lparr>calls := 4\<rparr>)) \<and>
     run tds [0, 0, 0, 0, 1, 1, 1, 1, 0, 0, 0, 0, 0, 1] (start 2 (ring 2 0)) = Some s \<and>
     all_returned s \<and>
     length [0, 0, 0, 0, 1, 1, 1, 1, 0, 0, 0, 0, 0, 1::nat] = 4 * length [''a'', ''b'', ''c''] + 2 \<and>
     threads s = [(Returned, 2), (Returned, 1)] \<and>
     (\<exists>p''. print_paragraph Listing2 2 (\<lambda>k. True) [''a'', ''b'', ''c''] False
               [0, 0, 0, 0, 1, 1, 1, 1, 0, 0, 0, 0, 0, 1] p = Some (Inr p'') \<and>
            out p'' = [(0, ''a''), (1, ''c''), (0, ''b'')])"
    by (intro conjI)
  then show ?thesis unfolding p_def
    by - (rule exI[of _ tds], rule exI[of _ "\<lparr>sems = ring 2 0, out = [], stderr = [], calls = 0\<rparr>\<lparr>calls := 4\<rparr>"], rule exI[of _ s])
qed



text \<open>
  Claim C9.  After a synchronized run of \<open>n \<ge> 1\<close> workers over \<open>M\<close> words (thread data of
  either listing, all allocations and thread creations having succeeded, \<open>M + n \<le> 2\<^sup>3\<^sup>1\<close>)
  in which all workers have returned, semaphore \<open>M mod n\<close> has count 1 and every other
  semaphore has count 0; for \<open>M \<ge> 1\<close> the last worker to print is worker
  \<open>(M - 1) mod n\<close>, and the semaphore it posts is this semaphore \<open>M mod n\<close>.  The final
  ring is the initial ring exactly when \<open>n\<close> divides \<open>M\<close>.
\<close>

theorem sync_final_ring:
  assumes "0 < n"
    and "length all_words + n \<le> INT_MAX + 1"
    and "create_threads l n env all_words False p = Some (Inr (tds, p'))"
    and "run tds sched (start n (ring n 0)) = Some s"
    and "all_returned s"
  shows "semaphores s = (replicate n (Some 0))[length all_words mod n := Some 1] \<and>
         (semaphores s = ring n 0 \<longleftrightarrow> n dvd length all_words) \<and>
         (0 < length all_words \<longrightarrow>
            fst (last (stdout s)) = (length all_words - 1) mod n \<and>
            sem_signal (tds ! ((length all_words - 1) mod n)) = length all_words mod n)"
proof -
  define M where "M = length all_words"
  note pt = create_threads_partitioned[OF assms(1,2,3)]
  note w = partitioned_wired[OF pt]
  note f = partitioned_fair[OF pt]
  note reach = sync_reach[OF assms(1) w assms(4)]
  from sync_final_length[OF assms(1) f reach(1,2) assms(5)] have K: "length (stdout s) = M"
    by (simp add: M_def)
  have noh: "\<not> (\<exists>u<n. holds_token (threads s ! u))"
    using final_counts[OF reach(2) assms(5)] by (auto simp: holds_token_def)
  from reach(1) have "semaphores s =
       (if \<exists>t<n. holds_token (threads s ! t) then replicate n (Some 0)
        else ring n (length (stdout s) mod n))"
    by (simp add: ring_inv_def)
  with noh have "semaphores s = ring n (length (stdout s) mod n)" by (simp only: if_False)
  with K have S: "semaphores s = ring n (M mod n)" by simp
  then have 1: "semaphores s = (replicate n (Some 0))[M mod n := Some 1]" by (simp add: ring_def)
  have 2: "semaphores s = ring n 0 \<longleftrightarrow> n dvd M"
    unfolding S using ring_eq_iff[OF assms(1), of "M mod n"] assms(1)
    by (simp add: dvd_eq_mod_eq_0)
  have 3: "fst (last (stdout s)) = (M - 1) mod n \<and> sem_signal (tds ! ((M - 1) mod n)) = M mod n"
    if M: "0 < M"
  proof -
    from reach(1) K have O: "stdout s = map (\<lambda>k. (k mod n, words (tds ! (k mod n)) ! (k div n))) [0..<M]"
      by (simp add: ring_inv_def)
    from M have "[0..<M] \<noteq> []" by simp
    then have "last (stdout s) = (\<lambda>k. (k mod n, words (tds ! (k mod n)) ! (k div n))) (last [0..<M])"
      unfolding O by (rule last_map)
    moreover have "last [0..<M] = M - 1" using M by (cases M) simp_all
    ultimately have a: "fst (last (stdout s)) = (M - 1) mod n" by simp
    from w assms(1) have "sem_signal (tds ! ((M - 1) mod n)) = ((M - 1) mod n + 1) mod n"
      by (simp add: wired_def)
    with mod_pred_Suc[OF assms(1) M] a show ?thesis by simp
  qed
  from 1 2 3 show ?thesis unfolding M_def by blast
qed

theorem sync_final_ring_witness:
  "\<exists>tds p' s.
     (0::nat) < 2 \<and> length [''a'', ''b'', ''c''] + 2 \<le> INT_MAX + 1 \<and>
     create_threads Listing1 2 (\<lambda>k. True) [''a'', ''b'', ''c''] False
       \<lparr>sems = ring 2 0, out = [], stderr = [], calls = 0\<rparr> = Some (Inr (tds, p')) \<and>
     run tds [0, 0, 0, 0, 1, 1, 1, 1, 0, 0, 0, 0, 0, 1] (start 2 (ring 2 0)) = Some s \<and>
     all_returned s \<and> semaphores s = [Some 0, Some 1] \<and> semaphores s \<noteq> ring 2 0 \<and>
     \<not> (2::nat) dvd length [''a'', ''b'', ''c'']"
proof -
  define p where "p = \<lparr>sems = ring 2 0, out = [], stderr = [], calls = 0\<rparr>"
  define tds where "tds = [\<lparr>thread_id = 0, words = [''a'', ''c''], word_count = 2, sem_wait = 0,
      sem_signal = 1, is_chaos_mode = False\<rparr>,
   \<lparr>thread_id = 1, words = [''b''], word_count = 1, sem_wait = 1,
      sem_signal = 0, is_chaos_mode = False\<rparr>]"
  define s where "s = \<lparr>threads = [(Returned, 2), (Returned, 1)], semaphores = [Some 0, Some 1],
     stdout = [(0, ''a''), (1, ''b''), (0, ''c'')],
     sem_calls = [(0, Wait 0), (0, Post 1), (1, Wait 1), (1, Post 0), (0, Wait 0), (0, Post 1)]\<rparr>"
  have n2: "(0::nat) < 2" by simp
  have b: "length [''a'', ''b'', ''c''] + 2 \<le> INT_MAX + 1" by (simp add: INT_MAX_def)
  have c: "create_threads Listing1 2 (\<lambda>k. True) [''a'', ''b'', ''c''] False p
      = Some (Inr (tds, p\<lparr>calls := 4\<rparr>))"
    unfolding p_def tds_def by code_simp
  have r: "run tds [0, 0, 0, 0, 1, 1, 1, 1, 0, 0, 0, 0, 0, 1] (start 2 (ring 2 0)) = Some s"
    unfolding tds_def s_def by code_simp
  have a: "all_returned s" by (simp add: s_def all_returned_def)
  from sync_final_ring[OF n2 b c r a]
  have "semaphores s = ring 2 0 \<longleftrightarrow> (2::nat) dvd length [''a'', ''b'', ''c'']" by blast
  moreover have "\<not> (2::nat) dvd length [''a'', ''b'', ''c'']" by simp
  ultimately have "semaphores s \<noteq> ring 2 0" by blast
  with b c r a show ?thesis unfolding p_def
    by (intro exI[of _ tds] exI[of _ "p\<lparr>calls := 4\<rparr>"] exI[of _ s]) (simp add: s_def p_def)
qed

text \<open>
  Claim C10.  With either listing (all allocations and thread creations having succeeded,
  \<open>M + n \<le> 2\<^sup>3\<^sup>1\<close>), in every state that a schedule reaches, the semaphore calls of worker
  \<open>t\<close> that have returned are a prefix of the sequence ``wait on semaphore \<open>t\<close>, post
  semaphore \<open>(t + 1) mod n\<close>'' repeated once per item of its share: it makes no other
  call, none after the calls of its last item, and none at all when its share is empty.
  When all workers have returned in synchronized mode, the calls of worker \<open>t\<close> are
  exactly this sequence.  In chaos mode no worker calls a semaphore.
\<close>

theorem gate_calls_exact:
  assumes "0 < n"
    and "length all_words + n \<le> INT_MAX + 1"
    and "create_threads l n env all_words mode p = Some (Inr (tds, p'))"
    and "run tds sched (start n (ring n 0)) = Some s"
    and "t < n"
  shows "(\<exists>k \<le> 2 * word_count (tds ! t).
            filter (\<lambda>e. fst e = t) (sem_calls s) =
            take k (concat (replicate (word_count (tds ! t)) [(t, Wait t), (t, Post ((t + 1) mod n))]))) \<and>
         (word_count (tds ! t) = 0 \<longrightarrow> filter (\<lambda>e. fst e = t) (sem_calls s) = []) \<and>
         (\<not> mode \<and> all_returned s \<longrightarrow>
            filter (\<lambda>e. fst e = t) (sem_calls s) =
            concat (replicate (word_count (tds ! t)) [(t, Wait t), (t, Post ((t + 1) mod n))])) \<and>
         (mode \<longrightarrow> sem_calls s = []) \<and>
         (\<forall>e\<in>set (sem_calls s). fst e < n)"
proof -
  note pt = create_threads_partitioned[OF assms(1,2,3)]
  note w = partitioned_wired[OF pt]
  note reach = any_reach[OF w assms(4)]
  from calls_prefix[OF w reach(1,2) assms(5)] obtain k where
    k: "k \<le> 2 * word_count (tds ! t)"
       "filter (\<lambda>e. fst e = t) (sem_calls s) =
        take k (concat (replicate (word_count (tds ! t)) [(t, Wait t), (t, Post ((t + 1) mod n))]))"
    by (auto simp: pair_calls_def)
  then have 1: "\<exists>k \<le> 2 * word_count (tds ! t).
            filter (\<lambda>e. fst e = t) (sem_calls s) =
            take k (concat (replicate (word_count (tds ! t)) [(t, Wait t), (t, Post ((t + 1) mod n))]))"
    by blast
  from k have 2: "word_count (tds ! t) = 0 \<longrightarrow> filter (\<lambda>e. fst e = t) (sem_calls s) = []"
    by simp
  have 3: "filter (\<lambda>e. fst e = t) (sem_calls s) =
            concat (replicate (word_count (tds ! t)) [(t, Wait t), (t, Post ((t + 1) mod n))])"
    if "\<not> mode" "all_returned s"
    using calls_final[OF _ reach(1,2) that(2) assms(5)] w that(1) by (simp add: pair_calls_def)
  have 4: "sem_calls s = []" if mode
    using calls_chaos[OF _ reach(2)] w that by simp
  from reach(2) have 5: "\<forall>e\<in>set (sem_calls s). fst e < n" by (simp add: hist_inv_def)
  from 1 2 3 4 5 show ?thesis by blast
qed

theorem gate_calls_exact_witness:
  "\<exists>tds p' s.
     (0::nat) < 2 \<and> length [''a'', ''b'', ''c''] + 2 \<le> INT_MAX + 1 \<and>
     create_threads Listing2 2 (\<lambda>k. True) [''a'', ''b'', ''c''] False
       \<lparr>sems = ring 2 0, out = [], stderr = [], calls = 0\<rparr> = Some (Inr (tds, p')) \<and>
     run tds [0, 0, 0, 0, 1, 1, 1, 1, 0, 0, 0, 0, 0, 1] (start 2 (ring 2 0)) = Some s \<and>
     all_returned s \<and> (1::nat) < 2 \<and>
     filter (\<lambda>e. fst e = 1) (sem_calls s) = concat (replicate (word_count (tds ! 1)) [(1, Wait 1), (1, Post 0)])"
proof -
  define p where "p = \<lparr>sems = ring 2 0, out = [], stderr = [], calls = 0\<rparr>"
  define tds where "tds = [\<lparr>thread_id = 0, words = [''a'', ''b''], word_count = 2, sem_wait = 0,
      sem_signal = 1, is_chaos_mode = False\<rparr>,
   \<lparr>thread_id = 1, words = [''c''], word_count = 1, sem_wait = 1,
      sem_signal = 0, is_chaos_mode = False\<rparr>]"
  define s where "s = \<lparr>threads = [(Returned, 2), (Returned, 1)], semaphores = [Some 0, Some 1],
     stdout = [(0, ''a''), (1, ''c''), (0, ''b'')],
     sem_calls = [(0, Wait 0), (0, Post 1), (1, Wait 1), (1, Post 0), (0, Wait 0), (0, Post 1)]\<rparr>"
  have n2: "(0::nat) < 2" and t: "(1::nat) < 2" by simp_all
  have b: "length [''a'', ''b'', ''c''] + 2 \<le> INT_MAX + 1" by (simp add: INT_MAX_def)
  have c: "create_threads Listing2 2 (\<lambda>k. True) [''a'', ''b'', ''c''] False p
      = Some (Inr (tds, p\<lparr>calls := 4\<rparr>))"
    unfolding p_def tds_def by code_simp
  have r: "run tds [0, 0, 0, 0, 1, 1, 1, 1, 0, 0, 0, 0, 0, 1] (start 2 (ring 2 0)) = Some s"
    unfolding tds_def s_def by code_simp
  have a: "all_returned s" by (simp add: s_def all_returned_def)
  from gate_calls_exact[OF n2 b c r t] a
  have "filter (\<lambda>e. fst e = 1) (sem_calls s) =
            concat (replicate (word_count (tds ! 1)) [(1, Wait 1), (1, Post ((1 + 1) mod 2))])"
    by blast
  then have "filter (\<lambda>e. fst e = 1) (sem_calls s) =
            concat (replicate (word_count (tds ! 1)) [(1, Wait 1), (1, Post 0)])"
    by simp
  with b c r a show ?thesis unfolding p_def
    by (intro exI[of _ tds] exI[of _ "p\<lparr>calls := 4\<rparr>"] exI[of _ s]) (simp add: p_def)
qed

lemma count_loop_overflow:
  assumes n: "0 < n"
  shows "j < m \<Longrightarrow> INT_MAX < j + quota n m j * n \<Longrightarrow> count_loop n m j c = Some (Inl Undefined)"
proof (induction "m - j" arbitrary: j c rule: less_induct)
  case less
  show ?case
  proof (cases "INT_MAX < j + n")
    case True
    with less.prems(1) show ?thesis by (subst count_loop.simps) simp
  next
    case False
    have q: "quota n m j = 1 + quota n m (j + n)" by (rule quota_step[OF n less.prems(1)])
    have jn: "j + n < m"
    proof (rule ccontr)
      assume "\<not> j + n < m"
      then have "quota n m (j + n) = 0" using quota_zero[OF n, of m "j + n"] by simp
      with q less.prems(2) False show False by simp
    qed
    have "m - (j + n) < m - j" using n less.prems(1) by arith
    moreover have "INT_MAX < (j + n) + quota n m (j + n) * n"
      using less.prems(2) q by (simp add: algebra_simps)
    ultimately have "count_loop n m (j + n) (c + 1) = Some (Inl Undefined)"
      using less.hyps jn by blast
    then show ?thesis using less.prems(1) False by (subst count_loop.simps) simp
  qed
qed

text \<open>
  Claim C2, as stated, fails on the code in two ways.  With no word at all every share is
  empty and every allocation is \<^verbatim>\<open>malloc(0)\<close>, which may return \<^verbatim>\<open>NULL\<close>: then both listings
  print \<^verbatim>\<open>malloc failed\<close> and exit with \<open>EXIT_FAILURE\<close> instead of producing five empty
  shares.  And with \<open>INT_MAX\<close> words the counter \<^verbatim>\<open>j\<close> of the first listing overflows.
\<close>

theorem partition_error_counterexample:
  "create_threads Listing1 5 (\<lambda>k. False) [] False \<lparr>sems = ring 5 0, out = [], stderr = [], calls = 0\<rparr>
     = Some (Inl (Exit EXIT_FAILURE,
                  \<lparr>sems = ring 5 0, out = [], stderr = [''malloc failed''], calls = 1\<rparr>)) \<and>
   create_threads Listing2 5 (\<lambda>k. False) [] False \<lparr>sems = ring 5 0, out = [], stderr = [], calls = 0\<rparr>
     = Some (Inl (Exit EXIT_FAILURE,
                  \<lparr>sems = ring 5 0, out = [], stderr = [''malloc failed''], calls = 1\<rparr>)) \<and>
   create_threads Listing1 5 (\<lambda>k. True) (replicate 2147483647 ''x'') False
       \<lparr>sems = ring 5 0, out = [], stderr = [], calls = 0\<rparr>
     = Some (Inl (Undefined, \<lparr>sems = ring 5 0, out = [], stderr = [], calls = 0\<rparr>))"
proof -
  have "quota 5 2147483647 0 = 429496730" by (simp add: quota_def)
  then have "count_loop 5 2147483647 0 0 = Some (Inl Undefined)"
    by (intro count_loop_overflow) (simp_all add: INT_MAX_def)
  then have 3: "create_threads Listing1 5 (\<lambda>k. True) (replicate 2147483647 ''x'') False
       \<lparr>sems = ring 5 0, out = [], stderr = [], calls = 0\<rparr>
     = Some (Inl (Undefined, \<lparr>sems = ring 5 0, out = [], stderr = [], calls = 0\<rparr>))"
    by (simp add: create_threads_def create_threads_v1_def threads_loop_v1.simps[of 5 _ _ _ 0])
  have 1: "create_threads Listing1 5 (\<lambda>k. False) [] False \<lparr>sems = ring 5 0, out = [], stderr = [], calls = 0\<rparr>
     = Some (Inl (Exit EXIT_FAILURE,
                  \<lparr>sems = ring 5 0, out = [], stderr = [''malloc failed''], calls = 1\<rparr>))"
    by code_simp
  have 2: "create_threads Listing2 5 (\<lambda>k. False) [] False \<lparr>sems = ring 5 0, out = [], stderr = [], calls = 0\<rparr>
     = Some (Inl (Exit EXIT_FAILURE,
                  \<lparr>sems = ring 5 0, out = [], stderr = [''malloc failed''], calls = 1\<rparr>))"
    by code_simp
  from 1 2 3 show ?thesis by blast
qed

text \<open>
  Claim C2, amended.  For every word list of \<open>M\<close> words and every \<open>n \<ge> 1\<close> with
  \<open>M + n \<le> 2\<^sup>3\<^sup>1\<close>: when each of the \<open>2 * n\<close> calls of \<^verbatim>\<open>malloc\<close> (also \<^verbatim>\<open>malloc(0)\<close> for an empty
  share) and \<^verbatim>\<open>pthread_create\<close> succeeds, either listing returns exactly \<open>n\<close> shares whose
  sizes sum to \<open>M\<close>; share \<open>i\<close> has \<open>M div n\<close> words, plus one when \<open>i < M mod n\<close>, and its
  array holds exactly \<open>word_count\<close> words; this covers \<open>M < n\<close> and \<open>M = 0\<close>.  When one of
  these calls fails, the listing exits with \<open>EXIT_FAILURE\<close> after one diagnostic.  The
  result is a function of the input and of the outcome of these calls.
\<close>

theorem partition_sizes:
  assumes "0 < n" and "length all_words + n \<le> INT_MAX + 1"
  shows "((\<forall>k<2 * n. env (calls p + k)) \<longrightarrow>
           (\<exists>tds p'. create_threads l n env all_words mode p = Some (Inr (tds, p')) \<and>
              length tds = n \<and>
              sum_list (map word_count tds) = length all_words \<and>
              (\<forall>i<n. word_count (tds ! i)
                       = length all_words div n + (if i < length all_words mod n then 1 else 0) \<and>
                     length (words (tds ! i)) = word_count (tds ! i)))) \<and>
         (\<not> (\<forall>k<2 * n. env (calls p + k)) \<longrightarrow>
           (\<exists>x msg. create_threads l n env all_words mode p = Some (Inl x) \<and>
              fst x = Exit EXIT_FAILURE \<and> stderr (snd x) = stderr p @ [msg]))"
proof (intro conjI impI)
  assume "\<forall>k<2 * n. env (calls p + k)"
  from create_threads_ok[OF assms this, of l mode] share_sizes[OF assms(1), of l all_words mode]
  show "\<exists>tds p'. create_threads l n env all_words mode p = Some (Inr (tds, p')) \<and>
              length tds = n \<and>
              sum_list (map word_count tds) = length all_words \<and>
              (\<forall>i<n. word_count (tds ! i)
                       = length all_words div n + (if i < length all_words mod n then 1 else 0) \<and>
                     length (words (tds ! i)) = word_count (tds ! i))"
    by blast
next
  assume "\<not> (\<forall>k<2 * n. env (calls p + k))"
  from first_failure[OF this] obtain k where
    "k < 2 * n" "\<not> env (calls p + k)" "\<forall>j<k. env (calls p + j)" by blast
  from create_threads_fail[OF assms this, of l mode]
  show "\<exists>x msg. create_threads l n env all_words mode p = Some (Inl x) \<and>
              fst x = Exit EXIT_FAILURE \<and> stderr (snd x) = stderr p @ [msg]"
    by (auto simp: exits_at_def)
qed

theorem partition_sizes_witness:
  "(0::nat) < 2 \<and> length [''a'', ''b'', ''c''] + 2 \<le> INT_MAX + 1 \<and>
   (\<exists>tds p'. create_threads Listing1 2 (\<lambda>k. True) [''a'', ''b'', ''c''] False
                \<lparr>sems = ring 2 0, out = [], stderr = [], calls = 0\<rparr> = Some (Inr (tds, p')) \<and>
      length tds = 2 \<and> sum_list (map word_count tds) = 3 \<and>
      word_count (tds ! 0) = 2 \<and> word_count (tds ! 1) = 1)"
proof -
  have n2: "(0::nat) < 2" by simp
  have b: "length [''a'', ''b'', ''c''] + 2 \<le> INT_MAX + 1" by (simp add: INT_MAX_def)
  from partition_sizes[OF n2 b, of "\<lambda>k. True" "\<lparr>sems = ring 2 0, out = [], stderr = [], calls = 0\<rparr>" Listing1 False]
  obtain tds p' where t: "create_threads Listing1 2 (\<lambda>k. True) [''a'', ''b'', ''c''] False
                \<lparr>sems = ring 2 0, out = [], stderr = [], calls = 0\<rparr> = Some (Inr (tds, p'))"
      "length tds = 2" "sum_list (map word_count tds) = length [''a'', ''b'', ''c'']"
      "\<forall>i<2. word_count (tds ! i)
                       = length [''a'', ''b'', ''c''] div 2 + (if i < length [''a'', ''b'', ''c''] mod 2 then 1 else 0) \<and>
                     length (words (tds ! i)) = word_count (tds ! i)"
    by auto
  from t(4) have "word_count (tds ! 0) = 2" "word_count (tds ! 1) = 1" by simp_all
  with t(1,2,3) b show ?thesis by auto
qed







lemma sync_stdout_words:
  assumes n: "0 < n" and w: "wired n False tds" and c: "shares_fair n m tds"
    and r: "run tds sched (start n (ring n 0)) = Some s"
  shows "map snd (stdout s)
           = take (length (stdout s)) (map (\<lambda>k. words (tds ! (k mod n)) ! (k div n)) [0..<m])"
    "all_returned s \<Longrightarrow> length (stdout s) = m"
proof -
  note inv = sync_reach(1)[OF n w r] and li = sync_reach(2)[OF n w r]
  define K where "K = length (stdout s)"
  from sync_length_le[OF n c inv] have K: "K \<le> m" by (simp add: K_def)
  from inv have "stdout s = map (\<lambda>k. (k mod n, words (tds ! (k mod n)) ! (k div n))) [0..<K]"
    by (simp add: ring_inv_def K_def)
  then have "map snd (stdout s) = map (\<lambda>k. words (tds ! (k mod n)) ! (k div n)) [0..<K]"
    by (simp add: comp_def)
  also have "\<dots> = take K (map (\<lambda>k. words (tds ! (k mod n)) ! (k div n)) [0..<m])"
    using K by (simp add: take_map take_upt)
  finally show "map snd (stdout s)
           = take (length (stdout s)) (map (\<lambda>k. words (tds ! (k mod n)) ! (k div n)) [0..<m])"
    by (simp only: K_def)
  show "length (stdout s) = m" if "all_returned s"
    by (rule sync_final_length[OF n c inv li that])
qed

text \<open>
  Claim C4, as stated, fails on the second listing: for the four words
  \<open>alpha beta gamma delta\<close> and two workers its shares are \<open>[alpha, beta]\<close> and
  \<open>[gamma, delta]\<close>, and a synchronized run of these workers prints
  \<open>alpha gamma beta delta\<close>.
\<close>

theorem block_example_counterexample:
  "\<exists>tds p' s. create_threads Listing2 2 (\<lambda>k. True) [''alpha'', ''beta'', ''gamma'', ''delta''] False
               \<lparr>sems = ring 2 0, out = [], stderr = [], calls = 0\<rparr> = Some (Inr (tds, p')) \<and>
     map words tds = [[''alpha'', ''beta''], [''gamma'', ''delta'']] \<and>
     run tds [0, 0, 0, 0, 1, 1, 1, 1, 0, 0, 0, 0, 1, 1, 1, 1, 0, 1] (start 2 (ring 2 0)) = Some s \<and>
     all_returned s \<and>
     map snd (stdout s) = [''alpha'', ''gamma'', ''beta'', ''delta'']"
proof -
  define tds where "tds = [\<lparr>thread_id = 0, words = [''alpha'', ''beta''], word_count = 2, sem_wait = 0,
                             sem_signal = 1, is_chaos_mode = False\<rparr>,
                           \<lparr>thread_id = 1, words = [''gamma'', ''delta''], word_count = 2, sem_wait = 1,
                             sem_signal = 0, is_chaos_mode = False\<rparr>]"
  define s where "s = \<lparr>threads = [(Returned, 2), (Returned, 2)], semaphores = [Some 1, Some 0],
      stdout = [(0, ''alpha''), (1, ''gamma''), (0, ''beta''), (1, ''delta'')],
      sem_calls = [(0, Wait 0), (0, Post 1), (1, Wait 1), (1, Post 0),
                   (0, Wait 0), (0, Post 1), (1, Wait 1), (1, Post 0)]\<rparr>"
  have c: "create_threads Listing2 2 (\<lambda>k. True) [''alpha'', ''beta'', ''gamma'', ''delta''] False
               \<lparr>sems = ring 2 0, out = [], stderr = [], calls = 0\<rparr>
        = Some (Inr (tds, \<lparr>sems = ring 2 0, out = [], stderr = [], calls = 4\<rparr>))"
    unfolding tds_def by code_simp
  have r: "run tds [0, 0, 0, 0, 1, 1, 1, 1, 0, 0, 0, 0, 1, 1, 1, 1, 0, 1] (start 2 (ring 2 0)) = Some s"
    unfolding tds_def s_def by code_simp
  have a: "all_returned s" unfolding s_def by code_simp
  have w: "map words tds = [[''alpha'', ''beta''], [''gamma'', ''delta'']]" by (simp add: tds_def)
  have o: "map snd (stdout s) = [''alpha'', ''gamma'', ''beta'', ''delta'']" by (simp add: s_def)
  show ?thesis
    by (intro exI[of _ tds] exI[of _ "\<lparr>sems = ring 2 0, out = [], stderr = [], calls = 4\<rparr>"] exI[of _ s])
       (simp only: c r a w o simp_thms)
qed

text \<open>
  Claim C4, amended.  For the four words \<open>alpha beta gamma delta\<close> and two workers (all
  allocations and thread creations having succeeded), the first listing yields the shares
  \<open>[alpha, gamma]\<close> and \<open>[beta, delta]\<close>, and what a synchronized run has printed is at
  every moment a prefix of \<open>alpha beta gamma delta\<close>, and all of it once both workers have
  returned.  The second listing yields the shares \<open>[alpha, beta]\<close> and \<open>[gamma, delta]\<close>,
  and its synchronized run prints \<open>alpha gamma beta delta\<close> in the same sense.
\<close>

theorem example_end_to_end:
  assumes "create_threads l 2 env [''alpha'', ''beta'', ''gamma'', ''delta''] False p = Some (Inr (tds, p'))"
    and "run tds sched (start 2 (ring 2 0)) = Some s"
  shows "map words tds = (case l of Listing1 \<Rightarrow> [[''alpha'', ''gamma''], [''beta'', ''delta'']]
                                  | Listing2 \<Rightarrow> [[''alpha'', ''beta''], [''gamma'', ''delta'']]) \<and>
         map snd (stdout s)
           = take (length (stdout s))
               (case l of Listing1 \<Rightarrow> [''alpha'', ''beta'', ''gamma'', ''delta'']
                        | Listing2 \<Rightarrow> [''alpha'', ''gamma'', ''beta'', ''delta'']) \<and>
         (all_returned s \<longrightarrow>
            map snd (stdout s)
              = (case l of Listing1 \<Rightarrow> [''alpha'', ''beta'', ''gamma'', ''delta'']
                         | Listing2 \<Rightarrow> [''alpha'', ''gamma'', ''beta'', ''delta'']))"
proof -
  let ?ex = "[''alpha'', ''beta'', ''gamma'', ''delta'']"
  have n2: "(0::nat) < 2" by simp
  have b: "length ?ex + 2 \<le> INT_MAX + 1" by (simp add: INT_MAX_def)
  note tds = create_threads_Inr(1)[OF n2 b assms(1)]
  from create_threads_partitioned[OF n2 b assms(1)] have part: "partitioned 2 ?ex False tds" .
  note w = partitioned_wired[OF part]
  have "length ?ex = 4" by simp
  with partitioned_fair[OF part] have f: "shares_fair 2 4 tds" by (simp only:)
  have upt2: "[0..<2] = [0, Suc 0]" by (simp add: upt_rec)
  have upt4: "[0..<4] = [0, 1, 2, 3]" by (simp add: upt_rec)
  have ws: "map words tds = (case l of Listing1 \<Rightarrow> [[''alpha'', ''gamma''], [''beta'', ''delta'']]
                                  | Listing2 \<Rightarrow> [[''alpha'', ''beta''], [''gamma'', ''delta'']])"
    unfolding tds upt2
    by (cases l) (simp_all add: share_td_def strided_td_def block_td_def quota_def offset_def upt_rec)
  have nth: "words (tds ! t) = map words tds ! t" if "t < 2" for t
    using that w by (simp add: wired_def)
  have full: "map (\<lambda>k. words (tds ! (k mod 2)) ! (k div 2)) [0..<4]
           = (case l of Listing1 \<Rightarrow> [''alpha'', ''beta'', ''gamma'', ''delta'']
                      | Listing2 \<Rightarrow> [''alpha'', ''gamma'', ''beta'', ''delta''])"
    unfolding upt4 by (cases l) (simp_all add: nth ws)
  from sync_stdout_words(1)[OF n2 w f assms(2)] full
  have pre: "map snd (stdout s)
           = take (length (stdout s))
               (case l of Listing1 \<Rightarrow> [''alpha'', ''beta'', ''gamma'', ''delta'']
                        | Listing2 \<Rightarrow> [''alpha'', ''gamma'', ''beta'', ''delta''])"
    by simp
  have fin: "map snd (stdout s)
              = (case l of Listing1 \<Rightarrow> [''alpha'', ''beta'', ''gamma'', ''delta'']
                         | Listing2 \<Rightarrow> [''alpha'', ''gamma'', ''beta'', ''delta''])" if "all_returned s"
  proof -
    from sync_stdout_words(2)[OF n2 w f assms(2) that] have "length (stdout s) = 4" .
    with pre show ?thesis by (cases l) simp_all
  qed
  from ws pre fin show ?thesis by blast
qed

theorem example_end_to_end_witness:
  "\<exists>tds p' s. create_threads Listing1 2 (\<lambda>k. True) [''alpha'', ''beta'', ''gamma'', ''delta''] False
               \<lparr>sems = ring 2 0, out = [], stderr = [], calls = 0\<rparr> = Some (Inr (tds, p')) \<and>
     run tds [0, 0, 0, 0, 1, 1, 1, 1, 0, 0, 0, 0, 1, 1, 1, 1, 0, 1] (start 2 (ring 2 0)) = Some s \<and>
     all_returned s \<and>
     map words tds = [[''alpha'', ''gamma''], [''beta'', ''delta'']] \<and>
     map snd (stdout s) = [''alpha'', ''beta'', ''gamma'', ''delta'']"
proof -
  define tds where "tds = [\<lparr>thread_id = 0, words = [''alpha'', ''gamma''], word_count = 2, sem_wait = 0,
                             sem_signal = 1, is_chaos_mode = False\<rparr>,
                           \<lparr>thread_id = 1, words = [''beta'', ''delta''], word_count = 2, sem_wait = 1,
                             sem_signal = 0, is_chaos_mode = False\<rparr>]"
  define s where "s = \<lparr>threads = [(Returned, 2), (Returned, 2)], semaphores = [Some 1, Some 0],
      stdout = [(0, ''alpha''), (1, ''beta''), (0, ''gamma''), (1, ''delta'')],
      sem_calls = [(0, Wait 0), (0, Post 1), (1, Wait 1), (1, Post 0),
                   (0, Wait 0), (0, Post 1), (1, Wait 1), (1, Post 0)]\<rparr>"
  have c: "create_threads Listing1 2 (\<lambda>k. True) [''alpha'', ''beta'', ''gamma'', ''delta''] False
               \<lparr>sems = ring 2 0, out = [], stderr = [], calls = 0\<rparr>
        = Some (Inr (tds, \<lparr>sems = ring 2 0, out = [], stderr = [], calls = 4\<rparr>))"
    unfolding tds_def by code_simp
  have r: "run tds [0, 0, 0, 0, 1, 1, 1, 1, 0, 0, 0, 0, 1, 1, 1, 1, 0, 1] (start 2 (ring 2 0)) = Some s"
    unfolding tds_def s_def by code_simp
  have a: "all_returned s" unfolding s_def by code_simp
  have "map words tds = [[''alpha'', ''gamma''], [''beta'', ''delta'']] \<and>
        map snd (stdout s) = [''alpha'', ''beta'', ''gamma'', ''delta'']"
    using example_end_to_end[OF c r] a unfolding listing.case by blast
  then show ?thesis
    by (intro exI[of _ tds] exI[of _ "\<lparr>sems = ring 2 0, out = [], stderr = [], calls = 4\<rparr>"] exI[of _ s])
       (simp only: c r a simp_thms)
qed

lemma ring_nth: "i < n \<Longrightarrow> ring n 0 ! i = Some (if i = 0 then 1 else 0)"
  by (simp add: ring_def nth_list_update)

lemma length_ring: "length (ring n j) = n"
  by (simp add: ring_def)

lemma init_loop_ok:
  "i \<le> n \<Longrightarrow> length (sems p) = n \<Longrightarrow> \<forall>k<n - i. env (calls p + k) \<Longrightarrow>
   init_loop n env i p
     = Inr (p\<lparr>calls := calls p + (n - i), sems := take i (sems p) @ drop i (ring n 0)\<rparr>)"
proof (induction "n - i" arbitrary: i p)
  case 0
  then have "i = n" by simp
  with 0 show ?case by (subst init_loop.simps) (simp add: length_ring)
next
  case (Suc d)
  then have i: "i < n" by simp
  from Suc.prems(3) i have e0: "env (calls p)" by (metis add.right_neutral zero_less_diff)
  define p2 where "p2 = p\<lparr>calls := calls p + 1, sems := (sems p)[i := Some (if i = 0 then 1 else 0)]\<rparr>"
  have step: "init_loop n env i p = init_loop n env (i + 1) p2"
    using i e0 by (subst init_loop.simps) (simp add: or_exit_ok p2_def)
  have d: "d = n - (i + 1)" using Suc.hyps(2) by simp
  have "\<forall>k<n - (i + 1). env (calls p2 + k)"
  proof (intro allI impI)
    fix k assume "k < n - (i + 1)"
    then have "Suc k < n - i" by simp
    with Suc.prems(3) have "env (calls p + Suc k)" by blast
    then show "env (calls p2 + k)" by (simp add: p2_def)
  qed
  from Suc.hyps(1)[OF d _ _ this] i Suc.prems(2)
  have "init_loop n env (i + 1) p2
     = Inr (p2\<lparr>calls := calls p2 + (n - (i + 1)), sems := take (i + 1) (sems p2) @ drop (i + 1) (ring n 0)\<rparr>)"
    by (simp add: p2_def)
  moreover have "take (i + 1) (sems p2) @ drop (i + 1) (ring n 0) = take i (sems p) @ drop i (ring n 0)"
  proof -
    have "take (i + 1) (sems p2) = take i (sems p) @ [Some (if i = 0 then 1 else 0)]"
      using i Suc.prems(2) by (simp add: p2_def take_Suc_conv_app_nth)
    moreover have "drop i (ring n 0) = Some (if i = 0 then 1 else 0) # drop (i + 1) (ring n 0)"
      using i ring_nth[OF i] by (simp add: Cons_nth_drop_Suc[symmetric] length_ring)
    ultimately show ?thesis by simp
  qed
  moreover have "calls p2 + (n - (i + 1)) = calls p + (n - i)" using i by (simp add: p2_def)
  ultimately show ?case unfolding step by (simp add: p2_def)
qed

lemma init_loop_fail:
  "k < n - i \<Longrightarrow> \<not> env (calls p + k) \<Longrightarrow> \<forall>j<k. env (calls p + j) \<Longrightarrow>
   \<exists>x. init_loop n env i p = Inl x \<and> exits_at p k ''sem_init failed'' x"
proof (induction k arbitrary: i p)
  case 0
  then have "i < n" "\<not> env (calls p)" by simp_all
  then show ?case by (subst init_loop.simps) (simp add: or_exit_fail exits_at_def)
next
  case (Suc k)
  then have i: "i < n" by simp
  from Suc.prems(3) have e0: "env (calls p)" by (metis add.right_neutral zero_less_Suc)
  define p2 where "p2 = p\<lparr>calls := calls p + 1, sems := (sems p)[i := Some (if i = 0 then 1 else 0)]\<rparr>"
  have step: "init_loop n env i p = init_loop n env (i + 1) p2"
    using i e0 by (subst init_loop.simps) (simp add: or_exit_ok p2_def)
  have a: "k < n - (i + 1)" using Suc.prems(1) by simp
  have b: "\<not> env (calls p2 + k)" using Suc.prems(2) by (simp add: p2_def)
  have c: "\<forall>j<k. env (calls p2 + j)"
  proof (intro allI impI)
    fix j assume "j < k"
    then have "Suc j < Suc k" by simp
    with Suc.prems(3) have "env (calls p + Suc j)" by blast
    then show "env (calls p2 + j)" by (simp add: p2_def)
  qed
  from Suc.IH[OF a b c] obtain x where
    x: "init_loop n env (i + 1) p2 = Inl x" "exits_at p2 k ''sem_init failed'' x" by blast
  have "exits_at p (1 + k) ''sem_init failed'' x"
    by (rule exits_at_shift[OF x(2)]) (simp_all add: p2_def)
  with x(1) step show ?case by simp
qed

lemma init_semaphores_ok:
  assumes "length (sems p) = n" "\<forall>k<n. env (calls p + k)"
  shows "init_semaphores n env p = Inr (p\<lparr>calls := calls p + n, sems := ring n 0\<rparr>)"
  using init_loop_ok[of 0 n p env] assms by (simp add: init_semaphores_def)

lemma init_semaphores_fail:
  assumes "k < n" "\<not> env (calls p + k)" "\<forall>j<k. env (calls p + j)"
  shows "\<exists>x. init_semaphores n env p = Inl x \<and> exits_at p k ''sem_init failed'' x"
  using init_loop_fail[of k n 0 env p] assms by (simp add: init_semaphores_def)

lemma length_fold_update: "length (fold (\<lambda>i ss. ss[i := v]) is xs) = length xs"
  by (induction "is" arbitrary: xs) simp_all

lemma destroy_semaphores_simps:
  "length (sems (destroy_semaphores n p)) = length (sems p)"
  "calls (destroy_semaphores n p) = calls p"
  "stderr (destroy_semaphores n p) = stderr p"
  "out (destroy_semaphores n p) = out p"
  by (simp_all add: destroy_semaphores_def length_fold_update)

lemma reset_semaphores_ok:
  assumes "length (sems p) = n" "\<forall>k<n. env (calls p + k)"
  shows "reset_semaphores n env p = Inr (p\<lparr>calls := calls p + n, sems := ring n 0\<rparr>)"
proof -
  have "init_semaphores n env (destroy_semaphores n p)
      = Inr ((destroy_semaphores n p)\<lparr>calls := calls (destroy_semaphores n p) + n, sems := ring n 0\<rparr>)"
    by (rule init_semaphores_ok) (simp_all add: destroy_semaphores_simps assms)
  then show ?thesis by (simp add: reset_semaphores_def destroy_semaphores_def)
qed

lemma reset_semaphores_fail:
  assumes "k < n" "\<not> env (calls p + k)" "\<forall>j<k. env (calls p + j)"
  shows "\<exists>x. reset_semaphores n env p = Inl x \<and> exits_at p k ''sem_init failed'' x"
proof -
  from init_semaphores_fail[of k n env "destroy_semaphores n p"] assms
  obtain x where x: "init_semaphores n env (destroy_semaphores n p) = Inl x"
    "exits_at (destroy_semaphores n p) k ''sem_init failed'' x"
    by (auto simp: destroy_semaphores_simps)
  from x(2) have "exits_at p k ''sem_init failed'' x"
    by (simp add: exits_at_def destroy_semaphores_simps)
  with x(1) show ?thesis by (simp add: reset_semaphores_def)
qed

text \<open>
  Claim C5.  On an array of \<open>n\<close> semaphores in any state (any counts, initialised or
  not, so after a run in either mode), \<^verbatim>\<open>init_semaphores\<close> and \<^verbatim>\<open>reset_semaphores\<close> return
  exactly when their \<open>n\<close> calls of \<^verbatim>\<open>sem_init\<close> succeed, and then the array is the initial
  ring: count 1 at semaphore 0 and count 0 at every other one, whatever it held before.
  When a call of \<^verbatim>\<open>sem_init\<close> fails they do not return: the process exits with
  \<open>EXIT_FAILURE\<close>.
\<close>

theorem ring_init_reset:
  assumes "length (sems p) = n"
  shows "(\<forall>q. init_semaphores n env p = Inr q \<or> reset_semaphores n env p = Inr q \<longrightarrow>
            sems q = ring n 0 \<and> length (sems q) = n \<and>
            (\<forall>i<n. sems q ! i = Some (if i = 0 then 1 else 0))) \<and>
         ((\<forall>k<n. env (calls p + k)) \<longrightarrow>
            (\<exists>q. init_semaphores n env p = Inr q) \<and> (\<exists>q. reset_semaphores n env p = Inr q)) \<and>
         (\<not> (\<forall>k<n. env (calls p + k)) \<longrightarrow>
            (\<exists>x. init_semaphores n env p = Inl x \<and> fst x = Exit EXIT_FAILURE) \<and>
            (\<exists>x. reset_semaphores n env p = Inl x \<and> fst x = Exit EXIT_FAILURE))"
proof -
  have ok: "(\<exists>q. init_semaphores n env p = Inr q) \<and> (\<exists>q. reset_semaphores n env p = Inr q)"
    if "\<forall>k<n. env (calls p + k)"
    using init_semaphores_ok[OF assms that] reset_semaphores_ok[OF assms that] by simp
  have fail: "(\<exists>x. init_semaphores n env p = Inl x \<and> fst x = Exit EXIT_FAILURE) \<and>
            (\<exists>x. reset_semaphores n env p = Inl x \<and> fst x = Exit EXIT_FAILURE)"
    if "\<not> (\<forall>k<n. env (calls p + k))"
  proof -
    from first_failure[OF that] obtain k where
      k: "k < n" "\<not> env (calls p + k)" "\<forall>j<k. env (calls p + j)" by blast
    from init_semaphores_fail[OF k] reset_semaphores_fail[OF k]
    show ?thesis by (auto simp: exits_at_def)
  qed
  have ring: "sems q = ring n 0 \<and> length (sems q) = n \<and>
            (\<forall>i<n. sems q ! i = Some (if i = 0 then 1 else 0))"
    if q: "init_semaphores n env p = Inr q \<or> reset_semaphores n env p = Inr q" for q
  proof -
    have all: "\<forall>k<n. env (calls p + k)"
    proof (rule ccontr)
      assume "\<not> (\<forall>k<n. env (calls p + k))"
      from fail[OF this] q show False by auto
    qed
    from q init_semaphores_ok[OF assms all] reset_semaphores_ok[OF assms all]
    have "sems q = ring n 0" by auto
    then show ?thesis using ring_nth[of _ n] by (simp add: length_ring)
  qed
  from ok fail ring show ?thesis by blast
qed

theorem ring_init_reset_witness:
  "length (sems \<lparr>sems = [Some 0, None, Some 7], out = [], stderr = [], calls = 0\<rparr>) = 3 \<and>
   reset_semaphores 3 (\<lambda>k. True) \<lparr>sems = [Some 0, None, Some 7], out = [], stderr = [], calls = 0\<rparr>
     = Inr \<lparr>sems = [Some 1, Some 0, Some 0], out = [], stderr = [], calls = 3\<rparr> \<and>
   sems \<lparr>sems = [Some 1, Some 0, Some 0], out = [], stderr = [], calls = 3\<rparr> = ring 3 0"
proof -
  have l: "length (sems \<lparr>sems = [Some 0, None, Some 7], out = [], stderr = [], calls = 0\<rparr>) = 3"
    by simp
  have r: "reset_semaphores 3 (\<lambda>k. True) \<lparr>sems = [Some 0, None, Some 7], out = [], stderr = [], calls = 0\<rparr>
     = Inr \<lparr>sems = [Some 1, Some 0, Some 0], out = [], stderr = [], calls = 3\<rparr>"
    by code_simp
  from ring_init_reset[OF l, of "\<lambda>k. True"] r
  have "sems \<lparr>sems = [Some 1, Some 0, Some 0], out = [], stderr = [], calls = 3\<rparr> = ring 3 0"
    by blast
  with l r show ?thesis by (intro conjI)
qed

lemma store_tokens_ok:
  "length aw + length toks \<le> T \<Longrightarrow> \<forall>k<length toks. env (calls p + k) \<Longrightarrow>
   store_tokens env T toks aw p = Inr (aw @ toks, p\<lparr>calls := calls p + length toks\<rparr>)"
proof (induction toks arbitrary: aw p)
  case Nil
  then show ?case by simp
next
  case (Cons tok toks)
  from Cons.prems(2)[rule_format, of 0] have e0: "env (calls p)" by simp
  have rest: "\<forall>k<length toks. env (calls (p\<lparr>calls := calls p + 1\<rparr>) + k)"
  proof (intro allI impI)
    fix k assume "k < length toks"
    with Cons.prems(2)[rule_format, of "Suc k"] show "env (calls (p\<lparr>calls := calls p + 1\<rparr>) + k)"
      by simp
  qed
  have "length (aw @ [tok]) + length toks \<le> T" using Cons.prems(1) by simp
  from Cons.IH[OF this rest] Cons.prems(1) e0 show ?case by (simp add: or_exit_ok)
qed

lemma store_tokens_fail:
  "length aw + length toks \<le> T \<Longrightarrow> k < length toks \<Longrightarrow> \<not> env (calls p + k) \<Longrightarrow>
   \<forall>j<k. env (calls p + j) \<Longrightarrow>
   \<exists>x. store_tokens env T toks aw p = Inl x \<and> exits_at p k ''strdup failed'' x"
proof (induction toks arbitrary: aw p k)
  case Nil
  then show ?case by simp
next
  case (Cons tok toks)
  show ?case
  proof (cases k)
    case 0
    with Cons.prems show ?thesis by (simp add: or_exit_fail exits_at_def)
  next
    case (Suc k')
    from Cons.prems(4)[rule_format, of 0] Suc have e0: "env (calls p)" by simp
    define p2 where "p2 = p\<lparr>calls := calls p + 1\<rparr>"
    have a: "length (aw @ [tok]) + length toks \<le> T" using Cons.prems(1) by simp
    have b: "k' < length toks" using Cons.prems(2) Suc by simp
    have c: "\<not> env (calls p2 + k')" using Cons.prems(3) Suc by (simp add: p2_def)
    have d: "\<forall>j<k'. env (calls p2 + j)"
    proof (intro allI impI)
      fix j assume "j < k'"
      with Cons.prems(4)[rule_format, of "Suc j"] Suc show "env (calls p2 + j)" by (simp add: p2_def)
    qed
    from Cons.IH[OF a b c d] obtain x where
      x: "store_tokens env T toks (aw @ [tok]) p2 = Inl x" "exits_at p2 k' ''strdup failed'' x"
      by blast
    have "exits_at p (1 + k') ''strdup failed'' x"
      by (rule exits_at_shift[OF x(2)]) (simp_all add: p2_def)
    with x(1) Cons.prems(1) e0 Suc show ?thesis by (simp add: or_exit_ok p2_def)
  qed
qed

lemma split_paragraph_ok:
  assumes "length para \<le> INT_MAX"
    and "length (filter (\<lambda>c. c = CHR '' '') para) + 1 = T" and "T \<le> INT_MAX"
    and "length (strtok_all [] para) \<le> T"
    and env: "\<forall>k<2 + length (strtok_all [] para). env (calls p + k)"
  shows "split_paragraph_into_words env para p
           = Inr ((strtok_all [] para, T), p\<lparr>calls := calls p + 2 + length (strtok_all [] para)\<rparr>)"
proof -
  from env[rule_format, of 0] have e0: "env (calls p)" by simp
  from env[rule_format, of 1] have e1: "env (calls p + 1)" by simp
  define p2 where "p2 = p\<lparr>calls := calls p + 2\<rparr>"
  have rest: "\<forall>k<length (strtok_all [] para). env (calls p2 + k)"
  proof (intro allI impI)
    fix k assume "k < length (strtok_all [] para)"
    with env[rule_format, of "2 + k"] show "env (calls p2 + k)" by (simp add: p2_def add.commute)
  qed
  have "store_tokens env T (strtok_all [] para) [] p2
          = Inr ([] @ strtok_all [] para, p2\<lparr>calls := calls p2 + length (strtok_all [] para)\<rparr>)"
    by (rule store_tokens_ok[OF _ rest]) (simp add: assms(4))
  then show ?thesis
    using assms(1,2,3) e0 e1
    by (simp add: split_paragraph_into_words_def Let_def or_exit_ok p2_def)
qed

lemma split_paragraph_fail:
  assumes "length para \<le> INT_MAX"
    and "length (filter (\<lambda>c. c = CHR '' '') para) + 1 = T" and "T \<le> INT_MAX"
    and "length (strtok_all [] para) \<le> T"
    and k: "k < 2 + length (strtok_all [] para)" "\<not> env (calls p + k)" "\<forall>j<k. env (calls p + j)"
  shows "\<exists>x. split_paragraph_into_words env para p = Inl x \<and>
             exits_at p k (if k = 0 then ''malloc failed'' else ''strdup failed'') x"
proof -
  consider "k = 0" | "k = 1" | "2 \<le> k" by arith
  then show ?thesis
  proof cases
    case 1
    with k(2) assms(1,2,3) show ?thesis
      by (simp add: split_paragraph_into_words_def Let_def or_exit_fail exits_at_def)
  next
    case 2
    from k(3)[rule_format, of 0] 2 have e0: "env (calls p)" by simp
    from k(2) 2 have e1: "\<not> env (calls p + 1)" by simp
    from e0 e1 assms(1,2,3) 2 show ?thesis
      by (simp add: split_paragraph_into_words_def Let_def or_exit_ok or_exit_fail exits_at_def)
  next
    case 3
    from k(3)[rule_format, of 0] 3 have e0: "env (calls p)" by simp
    from k(3)[rule_format, of 1] 3 have e1: "env (calls p + 1)" by simp
    define p2 where "p2 = p\<lparr>calls := calls p + 2\<rparr>"
    define k' where "k' = k - 2"
    have kk: "k = 2 + k'" using 3 by (simp add: k'_def)
    have a: "k' < length (strtok_all [] para)" using k(1) kk by simp
    have b: "\<not> env (calls p2 + k')" using k(2) kk by (simp add: p2_def add.commute add.left_commute)
    have c: "\<forall>j<k'. env (calls p2 + j)"
    proof (intro allI impI)
      fix j assume "j < k'"
      with k(3)[rule_format, of "2 + j"] kk show "env (calls p2 + j)"
        by (simp add: p2_def add.commute add.left_commute)
    qed
    have "length [] + length (strtok_all [] para) \<le> T" using assms(4) by simp
    from store_tokens_fail[OF this a b c] obtain x where
      x: "store_tokens env T (strtok_all [] para) [] p2 = Inl x" "exits_at p2 k' ''strdup failed'' x"
      by blast
    have "exits_at p (2 + k') ''strdup failed'' x"
      by (rule exits_at_shift[OF x(2)]) (simp_all add: p2_def)
    with x(1) assms(1,2,3) e0 e1 kk show ?thesis
      by (simp add: split_paragraph_into_words_def Let_def or_exit_ok p2_def)
  qed
qed

lemma step_length:
  assumes "step tds t s = Some s'"
  shows "length (semaphores s') = length (semaphores s)"
proof -
  from assms have pt: "print_thread (tds ! t) t (fst (threads s ! t)) (snd (threads s ! t)) s = Some s'"
    by (simp add: step_def split: if_splits)
  show ?thesis
  proof (cases "fst (threads s ! t)")
    case LoopTest
    with pt show ?thesis by auto
  next
    case SemWait
    with pt show ?thesis by (auto split: option.splits nat.splits)
  next
    case Printf
    with pt show ?thesis by auto
  next
    case SemPost
    with pt show ?thesis by (auto split: option.splits)
  next
    case Returned
    with pt show ?thesis by simp
  qed
qed

lemma run_length:
  "run tds sched s = Some s' \<Longrightarrow> length (semaphores s') = length (semaphores s)"
proof (induction sched arbitrary: s)
  case Nil
  then show ?case by simp
next
  case (Cons t ts)
  then obtain s1 where s1: "step tds t s = Some s1" "run tds ts s1 = Some s'"
    by (auto split: option.splits)
  from Cons.IH[OF s1(2)] step_length[OF s1(1)] show ?case by simp
qed

lemma print_paragraph_fail:
  assumes n: "0 < n" and bound: "length aw + n \<le> INT_MAX + 1"
    and k: "k < 2 * n" "\<not> env (calls p + k)" "\<forall>j<k. env (calls p + j)"
  shows "\<exists>x. print_paragraph l n env aw mode sched p = Some (Inl x) \<and>
             exits_at p k (if even k then ''malloc failed'' else ''pthread_create failed'') x"
proof -
  from create_threads_fail[OF n bound k, of l mode] obtain x where
    x: "create_threads l n env aw mode p = Some (Inl x)"
       "exits_at p k (if even k then ''malloc failed'' else ''pthread_create failed'') x"
    by blast
  have "print_paragraph l n env aw mode sched p = Some (Inl x)"
  proof (cases l)
    case Listing1
    with x(1) show ?thesis
      by (simp add: print_paragraph_def print_paragraph_v1_def create_threads_def)
  next
    case Listing2
    with x(1) show ?thesis
      by (simp add: print_paragraph_def print_paragraph_v2_def create_threads_def)
  qed
  with x(2) show ?thesis by blast
qed

lemma print_paragraph_ok:
  assumes n: "0 < n" and bound: "length aw + n \<le> INT_MAX + 1"
    and env: "\<forall>k<2 * n. env (calls p + k)" and ring: "sems p = ring n 0"
  shows "print_paragraph l n env aw mode sched p =
           Some (case run (map (share_td l n aw mode) [0..<n]) sched (start n (ring n 0)) of
                   None \<Rightarrow> Inl (Blocked, p\<lparr>calls := calls p + 2 * n\<rparr>)
                 | Some s \<Rightarrow>
                     if all_returned s
                     then Inr (p\<lparr>calls := calls p + 2 * n, sems := semaphores s, out := out p @ stdout s\<rparr>)
                     else Inl (Blocked, p\<lparr>calls := calls p + 2 * n\<rparr>))"
proof -
  note c = create_threads_ok[OF n bound env, of l mode]
  have j: "join_threads n mode (map (share_td l n aw mode) [0..<n]) sched (p\<lparr>calls := calls p + 2 * n\<rparr>)
         = (case run (map (share_td l n aw mode) [0..<n]) sched (start n (ring n 0)) of
                   None \<Rightarrow> Inl (Blocked, p\<lparr>calls := calls p + 2 * n\<rparr>)
                 | Some s \<Rightarrow>
                     if all_returned s
                     then Inr (p\<lparr>calls := calls p + 2 * n, sems := semaphores s, out := out p @ stdout s\<rparr>)
                     else Inl (Blocked, p\<lparr>calls := calls p + 2 * n\<rparr>))"
    using ring ring_no_None[of n 0] by (simp add: join_threads_def split: option.splits)
  show ?thesis
  proof (cases l)
    case Listing1
    with c j show ?thesis
      by (simp add: print_paragraph_def print_paragraph_v1_def create_threads_def)
  next
    case Listing2
    with c j show ?thesis
      by (simp add: print_paragraph_def print_paragraph_v2_def create_threads_def)
  qed
qed

lemma main_prog_outcome:
  assumes n: "0 < n"
    and para: "length para \<le> INT_MAX"
    and T: "length (filter (\<lambda>c. c = CHR '' '') para) + 1 = T"
    and toks: "length (strtok_all [] para) = T"
    and bound: "T + n \<le> INT_MAX + 1"
    and k: "k \<le> 2 + T + 6 * n" "\<forall>j<k. env j" "k < 2 + T + 6 * n \<longrightarrow> \<not> env k"
  shows "\<exists>oc p. main_prog l n para env sched0 sched1 = Some (oc, p) \<and>
           (oc = Blocked \<and>
              (\<not> (\<exists>s. run (map (share_td l n (strtok_all [] para) False) [0..<n]) sched0
                          (start n (ring n 0)) = Some s \<and> all_returned s) \<or>
               \<not> (\<exists>s. run (map (share_td l n (strtok_all [] para) True) [0..<n]) sched1
                          (start n (ring n 0)) = Some s \<and> all_returned s))
            \<or> oc = Exit 0 \<and> k = 2 + T + 6 * n \<and> stderr p = [] \<and> calls p = k
            \<or> oc = Exit EXIT_FAILURE \<and> k < 2 + T + 6 * n \<and> (\<exists>msg. stderr p = [msg]) \<and>
              calls p = k + 1)"
proof -
  define aw where "aw = strtok_all [] para"
  define p0 where "p0 = \<lparr>sems = replicate n None, out = [], stderr = [], calls = 0\<rparr>"
  define b1 where "b1 = 2 + T"
  define b2 where "b2 = b1 + n"
  define b3 where "b3 = b2 + 2 * n"
  define b4 where "b4 = b3 + n"
  define N where "N = b4 + 2 * n"
  have N: "N = 2 + T + 6 * n" by (simp add: N_def b4_def b3_def b2_def b1_def)
  define tds0 where "tds0 = map (share_td l n aw False) [0..<n]"
  define tds1 where "tds1 = map (share_td l n aw True) [0..<n]"
  have len: "length aw = T" by (simp add: aw_def toks)
  have Tmax: "T \<le> INT_MAX" using bound n by simp
  have awT: "length aw \<le> T" by (simp add: len)
  have bnd: "length aw + n \<le> INT_MAX + 1" using bound by (simp add: len)
  let ?goal = "\<lambda>x. (fst x = Blocked \<and>
              (\<not> (\<exists>s. run tds0 sched0 (start n (ring n 0)) = Some s \<and> all_returned s) \<or>
               \<not> (\<exists>s. run tds1 sched1 (start n (ring n 0)) = Some s \<and> all_returned s))
            \<or> fst x = Exit 0 \<and> k = N \<and> stderr (snd x) = [] \<and> calls (snd x) = k
            \<or> fst x = Exit EXIT_FAILURE \<and> k < N \<and> (\<exists>msg. stderr (snd x) = [msg]) \<and>
              calls (snd x) = k + 1)"
  have fail: "?goal x" if "exits_at q (k - calls q) msg x" "stderr q = []" "calls q \<le> k" "k < N"
    for q msg x
    using that by (simp add: exits_at_def)
  have nenv: "\<not> env k" if "k < N" using that k(3) by (simp add: N)
  have bN: "b1 \<le> b2" "b2 \<le> b3" "b3 \<le> b4" "b4 \<le> N"
    by (simp_all add: N_def b4_def b3_def b2_def)
  have "\<exists>x. main_prog l n para env sched0 sched1 = Some x \<and> ?goal x"
  proof (cases "k < b1")
    case True
    from True bN have nk: "\<not> env k" by (intro nenv) simp
    have "\<exists>x. split_paragraph_into_words env para p0 = Inl x \<and>
             exits_at p0 k (if k = 0 then ''malloc failed'' else ''strdup failed'') x"
      by (rule split_paragraph_fail[OF para T Tmax awT[unfolded aw_def]])
         (use True nk k(2) in \<open>simp_all add: p0_def b1_def toks\<close>)
    then obtain x where x: "split_paragraph_into_words env para p0 = Inl x"
      "exits_at p0 k (if k = 0 then ''malloc failed'' else ''strdup failed'') x" by blast
    from x(1) have m: "main_prog l n para env sched0 sched1 = Some x"
      by (simp add: main_prog_def p0_def)
    have "?goal x"
      by (rule fail[of p0 _ x]) (use x(2) True in \<open>simp_all add: p0_def N b1_def\<close>)
    with m show ?thesis by blast
  next
    case False
    then have k1: "b1 \<le> k" by simp
    define p1 where "p1 = \<lparr>sems = replicate n None, out = [], stderr = [], calls = b1\<rparr>"
    have s1: "split_paragraph_into_words env para p0 = Inr ((aw, T), p1)"
    proof -
      have "\<forall>j<2 + length (strtok_all [] para). env (calls p0 + j)"
        using k(2) k1 by (simp add: p0_def b1_def toks)
      from split_paragraph_ok[OF para T Tmax awT[unfolded aw_def] this]
      show ?thesis by (simp add: aw_def p0_def p1_def b1_def toks)
    qed
    show ?thesis
    proof (cases "k < b2")
      case True
      from True bN have nk: "\<not> env k" by (intro nenv) simp
      have "\<exists>x. init_semaphores n env p1 = Inl x \<and> exits_at p1 (k - b1) ''sem_init failed'' x"
        by (rule init_semaphores_fail)
           (use True k1 nk k(2) in \<open>simp_all add: p1_def b2_def\<close>)
      then obtain x where x: "init_semaphores n env p1 = Inl x"
        "exits_at p1 (k - b1) ''sem_init failed'' x" by blast
      from x(1) s1 have m: "main_prog l n para env sched0 sched1 = Some x"
        by (simp add: main_prog_def p0_def)
      have "?goal x"
        by (rule fail[of p1 _ x])
           (use x(2) True k1 in \<open>simp_all add: p1_def N_def b4_def b3_def b2_def\<close>)
      with m show ?thesis by blast
    next
      case False
      then have k2: "b2 \<le> k" by simp
      define p2 where "p2 = \<lparr>sems = ring n 0, out = [], stderr = [], calls = b2\<rparr>"
      have s2: "init_semaphores n env p1 = Inr p2"
      proof -
        have "\<forall>j<n. env (calls p1 + j)" using k(2) k2 by (simp add: p1_def b2_def)
        from init_semaphores_ok[OF _ this, of ] show ?thesis
          by (simp add: p1_def p2_def b2_def)
      qed
      show ?thesis
      proof (cases "k < b3")
        case True
        from True bN have nk: "\<not> env k" by (intro nenv) simp
        have "\<exists>x. print_paragraph l n env aw False sched0 p2 = Some (Inl x) \<and>
                 exits_at p2 (k - b2)
                   (if even (k - b2) then ''malloc failed'' else ''pthread_create failed'') x"
          by (rule print_paragraph_fail[OF n bnd])
             (use True k2 nk k(2) in \<open>simp_all add: p2_def b3_def\<close>)
        then obtain x msg where x: "print_paragraph l n env aw False sched0 p2 = Some (Inl x)"
          "exits_at p2 (k - b2) msg x" by blast
        from x(1) s1 s2 have m: "main_prog l n para env sched0 sched1 = Some x"
          by (simp add: main_prog_def p0_def len)
        have "?goal x"
          by (rule fail[of p2 _ x])
             (use x(2) True k2 in \<open>simp_all add: p2_def N_def b4_def b3_def\<close>)
        with m show ?thesis by blast
      next
        case False
        then have k3: "b3 \<le> k" by simp
        have e3: "\<forall>j<2 * n. env (calls p2 + j)" using k(2) k3 by (simp add: p2_def b3_def)
        have "sems p2 = ring n 0" by (simp add: p2_def)
        note pp0 = print_paragraph_ok[OF n bnd e3 this, of l False sched0, folded tds0_def]
        show ?thesis
        proof (cases "\<exists>s. run tds0 sched0 (start n (ring n 0)) = Some s \<and> all_returned s")
          case False
          then have "print_paragraph l n env aw False sched0 p2
                       = Some (Inl (Blocked, p2\<lparr>calls := calls p2 + 2 * n\<rparr>))"
            unfolding pp0 by (auto split: option.splits)
          with s1 s2 have "main_prog l n para env sched0 sched1
                       = Some (Blocked, p2\<lparr>calls := calls p2 + 2 * n\<rparr>)"
            by (simp add: main_prog_def p0_def len)
          with False show ?thesis by simp
        next
          case True
          then obtain s where s: "run tds0 sched0 (start n (ring n 0)) = Some s" "all_returned s"
            by blast
          define p3 where "p3 = \<lparr>sems = semaphores s, out = stdout s, stderr = [], calls = b3\<rparr>"
          have s3: "print_paragraph l n env aw False sched0 p2 = Some (Inr p3)"
            unfolding pp0 using s by (simp add: p2_def p3_def b3_def)
          have l3: "length (sems p3) = n"
            using run_length[OF s(1)] by (simp add: p3_def start_def length_ring)
          show ?thesis
          proof (cases "k < b4")
            case True
            from True bN have nk: "\<not> env k" by (intro nenv) simp
            have "\<exists>x. reset_semaphores n env p3 = Inl x \<and>
                     exits_at p3 (k - b3) ''sem_init failed'' x"
              by (rule reset_semaphores_fail)
                 (use True k3 nk k(2) in \<open>simp_all add: p3_def b4_def\<close>)
            then obtain x where x: "reset_semaphores n env p3 = Inl x"
              "exits_at p3 (k - b3) ''sem_init failed'' x" by blast
            from x(1) s1 s2 s3 have m: "main_prog l n para env sched0 sched1 = Some x"
              by (simp add: main_prog_def p0_def len)
            have "?goal x"
              by (rule fail[of p3 _ x])
                 (use x(2) True k3 in \<open>simp_all add: p3_def N_def b4_def\<close>)
            with m show ?thesis by blast
          next
            case False
            then have k4: "b4 \<le> k" by simp
            define p4 where "p4 = \<lparr>sems = ring n 0, out = stdout s, stderr = [], calls = b4\<rparr>"
            have s4: "reset_semaphores n env p3 = Inr p4"
            proof -
              have "\<forall>j<n. env (calls p3 + j)" using k(2) k4 by (simp add: p3_def b4_def)
              from reset_semaphores_ok[OF l3 this] show ?thesis
                by (simp add: p3_def p4_def b4_def)
            qed
            show ?thesis
            proof (cases "k < N")
              case True
              from True bN have nk: "\<not> env k" by (intro nenv) simp
              have "\<exists>x. print_paragraph l n env aw True sched1 p4 = Some (Inl x) \<and>
                     exits_at p4 (k - b4)
                       (if even (k - b4) then ''malloc failed'' else ''pthread_create failed'') x"
                by (rule print_paragraph_fail[OF n bnd])
                   (use True k4 nk k(2) in \<open>simp_all add: p4_def N_def\<close>)
              then obtain x msg where x: "print_paragraph l n env aw True sched1 p4 = Some (Inl x)"
                "exits_at p4 (k - b4) msg x" by blast
              from x(1) s1 s2 s3 s4 have m: "main_prog l n para env sched0 sched1 = Some x"
                by (simp add: main_prog_def p0_def len)
              have "?goal x"
                by (rule fail[of p4 _ x])
                   (use x(2) True k4 in \<open>simp_all add: p4_def\<close>)
              with m show ?thesis by blast
            next
              case False
              with k(1) have kN: "k = N" by (simp add: N)
              have e5: "\<forall>j<2 * n. env (calls p4 + j)" using k(2) kN by (simp add: p4_def N_def)
              have "sems p4 = ring n 0" by (simp add: p4_def)
              note pp1 = print_paragraph_ok[OF n bnd e5 this, of l True sched1, folded tds1_def]
              show ?thesis
              proof (cases "\<exists>s. run tds1 sched1 (start n (ring n 0)) = Some s \<and> all_returned s")
                case False
                then have "print_paragraph l n env aw True sched1 p4
                             = Some (Inl (Blocked, p4\<lparr>calls := calls p4 + 2 * n\<rparr>))"
                  unfolding pp1 by (auto split: option.splits)
                with s1 s2 s3 s4 have "main_prog l n para env sched0 sched1
                             = Some (Blocked, p4\<lparr>calls := calls p4 + 2 * n\<rparr>)"
                  by (simp add: main_prog_def p0_def len)
                with False show ?thesis by simp
              next
                case True
                then obtain s' where s': "run tds1 sched1 (start n (ring n 0)) = Some s'"
                  "all_returned s'" by blast
                define p5 where "p5 = \<lparr>sems = semaphores s', out = stdout s @ stdout s',
                                        stderr = [], calls = N\<rparr>"
                have s5: "print_paragraph l n env aw True sched1 p4 = Some (Inr p5)"
                  unfolding pp1 using s' by (simp add: p4_def p5_def N_def)
                from s1 s2 s3 s4 s5
                have "main_prog l n para env sched0 sched1 = Some (Exit 0, destroy_semaphores n p5)"
                  by (simp add: main_prog_def p0_def len)
                moreover have "stderr (destroy_semaphores n p5) = []"
                  "calls (destroy_semaphores n p5) = N"
                  by (simp_all add: destroy_semaphores_simps p5_def)
                ultimately show ?thesis using kN by simp
              qed
            qed
          qed
        qed
      qed
    qed
  qed
  then show ?thesis unfolding N tds0_def tds1_def aw_def by auto
qed

lemma the_paragraph_facts:
  "length the_paragraph \<le> INT_MAX"
  "length (filter (\<lambda>c. c = CHR '' '') the_paragraph) + 1 = 33"
  "length (strtok_all [] the_paragraph) = 33"
  by code_simp+

lemma first_failure_or_none:
  "\<exists>k\<le>N. (\<forall>j<k. env j) \<and> (k < N \<longrightarrow> \<not> env k)" for N :: nat
proof (cases "\<forall>k<N. env k")
  case True
  then show ?thesis by (intro exI[of _ N]) simp
next
  case False
  from first_failure[OF this] show ?thesis by (metis less_imp_le)
qed

lemma complete_schedule:
  assumes "0 < n"
  shows "\<exists>sched s. run (map (share_td l n aw mode) [0..<n]) sched (start n (ring n 0)) = Some s \<and>
           all_returned s"
proof -
  have "partitioned n aw mode (map (share_td l n aw mode) [0..<n])"
    by (auto simp: partitioned_def)
  from completes_any[OF assms this, of "[]"] show ?thesis by simp
qed

text \<open>
  Claim C8.  \<^verbatim>\<open>main\<close> makes 65 library calls that it checks: the \<^verbatim>\<open>malloc\<close> and the 34
  \<^verbatim>\<open>strdup\<close> of \<^verbatim>\<open>split_paragraph_into_words\<close>, five \<^verbatim>\<open>sem_init\<close>, five \<^verbatim>\<open>malloc\<close> and
  \<^verbatim>\<open>pthread_create\<close> of the synchronized run, five \<^verbatim>\<open>sem_init\<close> of the reset, and five
  \<^verbatim>\<open>malloc\<close> and \<^verbatim>\<open>pthread_create\<close> of the unsynchronized run.  With either listing, for
  every environment and all schedules of the two runs, \<^verbatim>\<open>main\<close> ends, and never in
  undefined behaviour; it stays blocked in a join only when a schedule does not bring
  all workers of a run to their return, and schedules that do exist.  Otherwise: when
  all 65 calls succeed the process exits with status 0 and no diagnostic; when call \<open>k\<close>
  is the first that fails the process exits with \<open>EXIT_FAILURE\<close>, which is not 0, after
  exactly one diagnostic, and it makes no library call after the failed one.
\<close>

theorem main_exit_status:
  "\<exists>oc p. main l env sched0 sched1 = Some (oc, p) \<and> oc \<noteq> Undefined \<and>
     (oc \<noteq> Blocked \<longrightarrow>
        ((\<forall>k<65. env k) \<longrightarrow> oc = Exit 0 \<and> stderr p = [] \<and> calls p = 65) \<and>
        (\<forall>k<65. \<not> env k \<and> (\<forall>j<k. env j) \<longrightarrow>
           oc = Exit EXIT_FAILURE \<and> EXIT_FAILURE \<noteq> 0 \<and> (\<exists>msg. stderr p = [msg]) \<and>
           calls p = k + 1)) \<and>
     (oc = Blocked \<longrightarrow>
        \<not> (\<exists>s. run (map (share_td l NUM_THREADS (strtok_all [] the_paragraph) False) [0..<NUM_THREADS])
                   sched0 (start NUM_THREADS (ring NUM_THREADS 0)) = Some s \<and> all_returned s) \<or>
        \<not> (\<exists>s. run (map (share_td l NUM_THREADS (strtok_all [] the_paragraph) True) [0..<NUM_THREADS])
                   sched1 (start NUM_THREADS (ring NUM_THREADS 0)) = Some s \<and> all_returned s)) \<and>
     (\<exists>s0 s1 oc' p'. main l env s0 s1 = Some (oc', p') \<and> oc' \<noteq> Blocked)"
proof -
  have n: "0 < NUM_THREADS" by (simp add: NUM_THREADS_def)
  have b: "33 + NUM_THREADS \<le> INT_MAX + 1" by (simp add: NUM_THREADS_def INT_MAX_def)
  have N: "2 + 33 + 6 * NUM_THREADS = 65" by (simp add: NUM_THREADS_def)
  from first_failure_or_none[of 65 env] obtain k where
    k: "k \<le> 65" "\<forall>j<k. env j" "k < 65 \<longrightarrow> \<not> env k" by blast
  note outcome = main_prog_outcome[OF n the_paragraph_facts b, unfolded N, OF k, of l,
      folded main_def]
  from outcome[of sched0 sched1] obtain oc p where
    m: "main l env sched0 sched1 = Some (oc, p)"
    and c: "oc = Blocked \<and>
              (\<not> (\<exists>s. run (map (share_td l NUM_THREADS (strtok_all [] the_paragraph) False) [0..<NUM_THREADS])
                   sched0 (start NUM_THREADS (ring NUM_THREADS 0)) = Some s \<and> all_returned s) \<or>
               \<not> (\<exists>s. run (map (share_td l NUM_THREADS (strtok_all [] the_paragraph) True) [0..<NUM_THREADS])
                   sched1 (start NUM_THREADS (ring NUM_THREADS 0)) = Some s \<and> all_returned s))
            \<or> oc = Exit 0 \<and> k = 65 \<and> stderr p = [] \<and> calls p = k
            \<or> oc = Exit EXIT_FAILURE \<and> k < 65 \<and> (\<exists>msg. stderr p = [msg]) \<and> calls p = k + 1"
    by blast
  have 1: "oc \<noteq> Undefined" using c by auto
  have 2: "oc = Exit 0 \<and> stderr p = [] \<and> calls p = 65" if "oc \<noteq> Blocked" "\<forall>k<65. env k"
  proof -
    from that(2) k(3) have "\<not> k < 65" by blast
    with c that(1) show ?thesis by auto
  qed
  have 3: "oc = Exit EXIT_FAILURE \<and> EXIT_FAILURE \<noteq> 0 \<and> (\<exists>msg. stderr p = [msg]) \<and> calls p = k' + 1"
    if "oc \<noteq> Blocked" "k' < 65" "\<not> env k'" "\<forall>j<k'. env j" for k'
  proof -
    have "\<not> k' < k" using k(2) that(3) by blast
    moreover have "\<not> k < k'" using k(3) that(2,4) by auto
    ultimately have "k = k'" by simp
    with c that(1,2) show ?thesis by (auto simp: EXIT_FAILURE_def)
  qed
  have 4: "\<not> (\<exists>s. run (map (share_td l NUM_THREADS (strtok_all [] the_paragraph) False) [0..<NUM_THREADS])
                   sched0 (start NUM_THREADS (ring NUM_THREADS 0)) = Some s \<and> all_returned s) \<or>
        \<not> (\<exists>s. run (map (share_td l NUM_THREADS (strtok_all [] the_paragraph) True) [0..<NUM_THREADS])
                   sched1 (start NUM_THREADS (ring NUM_THREADS 0)) = Some s \<and> all_returned s)"
    if "oc = Blocked"
    using c that by auto
  have 5: "\<exists>s0 s1 oc' p'. main l env s0 s1 = Some (oc', p') \<and> oc' \<noteq> Blocked"
  proof -
    from complete_schedule[OF n, of l "strtok_all [] the_paragraph" False] obtain s0 where
      s0: "\<exists>s. run (map (share_td l NUM_THREADS (strtok_all [] the_paragraph) False) [0..<NUM_THREADS])
                   s0 (start NUM_THREADS (ring NUM_THREADS 0)) = Some s \<and> all_returned s" by blast
    from complete_schedule[OF n, of l "strtok_all [] the_paragraph" True] obtain s1 where
      s1: "\<exists>s. run (map (share_td l NUM_THREADS (strtok_all [] the_paragraph) True) [0..<NUM_THREADS])
                   s1 (start NUM_THREADS (ring NUM_THREADS 0)) = Some s \<and> all_returned s" by blast
    from outcome[of s0 s1] s0 s1 show ?thesis by (metis outcome.distinct(3,5))
  qed
  from m 1 2 3 4 5 show ?thesis by blast
qed

theorem main_exit_status_witness:
  "main Listing2 (\<lambda>k. k \<noteq> 40) [] []
     = Some (Exit EXIT_FAILURE,
             \<lparr>sems = ring 5 0, out = [], stderr = [''malloc failed''], calls = 41\<rparr>) \<and>
   EXIT_FAILURE \<noteq> 0 \<and>
   (\<exists>s0 s1 p. main Listing1 (\<lambda>k. True) s0 s1 = Some (Exit 0, p) \<and> stderr p = [] \<and> calls p = 65)"
proof -
  have f: "main Listing2 (\<lambda>k. k \<noteq> 40) [] []
     = Some (Exit EXIT_FAILURE,
             \<lparr>sems = ring 5 0, out = [], stderr = [''malloc failed''], calls = 41\<rparr>)"
    by code_simp
  from main_exit_status[of Listing2 "\<lambda>k. k \<noteq> 40" "[]" "[]"] f
  have e: "EXIT_FAILURE \<noteq> 0" by auto
  from main_exit_status[of Listing1 "\<lambda>k. True" "[]" "[]"] obtain s0 s1 oc' p' where
    m': "main Listing1 (\<lambda>k. True) s0 s1 = Some (oc', p')" "oc' \<noteq> Blocked"
    by blast
  from main_exit_status[of Listing1 "\<lambda>k. True" s0 s1] obtain oc p where
    m: "main Listing1 (\<lambda>k. True) s0 s1 = Some (oc, p)"
    and a: "oc \<noteq> Blocked \<longrightarrow> ((\<forall>k<65. (\<lambda>k. True) k) \<longrightarrow> oc = Exit 0 \<and> stderr p = [] \<and> calls p = 65)"
    by blast
  from m m' have "oc \<noteq> Blocked" by simp
  with a have "oc = Exit 0 \<and> stderr p = [] \<and> calls p = 65" by simp
  with m have "\<exists>s0 s1 p. main Listing1 (\<lambda>k. True) s0 s1 = Some (Exit 0, p) \<and>
     stderr p = [] \<and> calls p = 65" by blast
  with f e show ?thesis by (intro conjI)
qed

end
